theory Spec2Isabelle
  imports Main "HOL-Library.Sublist"
begin

section \<open>Texts\<close>

text \<open>
  A Python \<open>str\<close> is a sequence of Unicode code points. A code point is a natural
  number here, and a literal of the scripts is written \<open>ustr ''...''\<close>. The double
  quote is code point 34, the single quote 39, the newline 10.
\<close>

type_synonym codepoint = nat
type_synonym utext = "codepoint list"

abbreviation (input) ustr :: "string \<Rightarrow> utext" where
  "ustr s \<equiv> map of_char s"

section \<open>The fragment of \<open>re\<close> that the two scripts use\<close>

text \<open>
  The patterns of the scripts are built from literal characters, a greedy \<open>+\<close> over a
  character class, concatenation, alternation and capturing groups.
\<close>

datatype regex =
    Lit utext
  | Plus_class "codepoint \<Rightarrow> bool"
  | Seq regex regex
  | Alt regex regex
  | Group nat regex

type_synonym groups = "nat \<rightharpoonup> utext"

text \<open>
  \<open>rmatch r s g\<close> lists, in the order in which a backtracking matcher tries them, the
  ways in which \<open>r\<close> matches at the start of \<open>s\<close>: the text that is left and the groups
  captured. A greedy \<open>+\<close> tries the longest run first, an alternation its left branch
  first. The match that \<open>re\<close> reports is the head of the list.
\<close>

fun rmatch :: "regex \<Rightarrow> utext \<Rightarrow> groups \<Rightarrow> (utext \<times> groups) list" where
  "rmatch (Lit l) s g = (if prefix l s then [(drop (length l) s, g)] else [])"
| "rmatch (Plus_class P) s g =
     map (\<lambda>n. (drop n s, g)) (rev [1..<Suc (length (takeWhile P s))])"
| "rmatch (Seq a b) s g = concat (map (\<lambda>(s', g'). rmatch b s' g') (rmatch a s g))"
| "rmatch (Alt a b) s g = rmatch a s g @ rmatch b s g"
| "rmatch (Group n a) s g =
     map (\<lambda>(s', g'). (s', g'(n \<mapsto> take (length s - length s') s))) (rmatch a s g)"

text \<open>A replacement template: literal text and group references \<open>\1\<close>, \<open>\2\<close>.\<close>

datatype tpl_item = TLit utext | TGroup nat

fun expand :: "tpl_item list \<Rightarrow> groups \<Rightarrow> utext" where
  "expand [] g = []"
| "expand (TLit l # t) g = l @ expand t g"
| "expand (TGroup n # t) g = (case g n of None \<Rightarrow> [] | Some x \<Rightarrow> x) @ expand t g"

text \<open>
  \<open>re.sub(pattern, repl, string)\<close>: scan from the left; where the pattern matches, emit
  the expanded template and go on after the match; elsewhere copy one character. The
  branch for a match that consumes nothing (emit the template, copy the next
  character) keeps the function total; no pattern of the scripts can match the empty
  text (\<open>rmatch_pattern1_shorter\<close>, \<open>rmatch_pattern2_shorter\<close>, and the literal pattern
  of \<open>fix_const_to_var\<close> is not empty), so it is never taken.
\<close>

function re_sub :: "regex \<Rightarrow> tpl_item list \<Rightarrow> utext \<Rightarrow> utext" where
  "re_sub r t s =
     (case rmatch r s Map.empty of
        [] \<Rightarrow> (case s of [] \<Rightarrow> [] | c # cs \<Rightarrow> c # re_sub r t cs)
      | (s', g) # _ \<Rightarrow>
          if length s' < length s then expand t g @ re_sub r t s'
          else expand t g @ (case s of [] \<Rightarrow> [] | c # cs \<Rightarrow> c # re_sub r t cs))"
  by pat_completeness auto
termination
  by (relation "measure (\<lambda>(r, t, s). length s)") auto

declare re_sub.simps [simp del]

section \<open>fix\_const\_var.py\<close>

definition const_env_pattern :: regex where
  "const_env_pattern = Lit (ustr ''const env = try'')"

definition var_env_template :: "tpl_item list" where
  "var_env_template = [TLit (ustr ''var env = try'')]"

definition fix_const_to_var :: "utext \<Rightarrow> utext" where
  "fix_const_to_var content = re_sub const_env_pattern var_env_template content"

section \<open>fix\_tests.py\<close>

text \<open>
  \<open>\w\<close> on a \<open>str\<close> pattern matches \<open>[a-zA-Z0-9_]\<close> and the alphanumeric characters of
  the rest of Unicode. The Unicode tables are not part of the repository: the
  parameter \<open>U\<close> says which code points from 128 on are alphanumeric.
\<close>

definition ascii_word :: "codepoint \<Rightarrow> bool" where
  "ascii_word c \<longleftrightarrow>
     (48 \<le> c \<and> c \<le> 57) \<or> (65 \<le> c \<and> c \<le> 90) \<or> c = 95 \<or> (97 \<le> c \<and> c \<le> 122)"

definition word_char :: "(codepoint \<Rightarrow> bool) \<Rightarrow> codepoint \<Rightarrow> bool" where
  "word_char U c = (if c < 128 then ascii_word c else U c)"

definition not_dquote :: "codepoint \<Rightarrow> bool" where
  "not_dquote c \<longleftrightarrow> c \<noteq> 34"

definition not_squote :: "codepoint \<Rightarrow> bool" where
  "not_squote c \<longleftrightarrow> c \<noteq> 39"

definition word_or_underscore :: "(codepoint \<Rightarrow> bool) \<Rightarrow> codepoint \<Rightarrow> bool" where
  "word_or_underscore U c \<longleftrightarrow> word_char U c \<or> c = 95"

text \<open>The key: \<open>("[^"]+"|'[^']+'|[\w_]+)\<close>, without its group.\<close>

definition key_alternatives :: "(codepoint \<Rightarrow> bool) \<Rightarrow> regex" where
  "key_alternatives U =
     Alt (Seq (Lit [34]) (Seq (Plus_class not_dquote) (Lit [34])))
       (Alt (Seq (Lit [39]) (Seq (Plus_class not_squote) (Lit [39])))
         (Plus_class (word_or_underscore U)))"

text \<open>Pattern 1: \<open>const (\w+) = try env\.get\(("[^"]+"|'[^']+'|[\w_]+)\)\<close>.\<close>

definition pattern1 :: "(codepoint \<Rightarrow> bool) \<Rightarrow> regex" where
  "pattern1 U =
     Seq (Lit (ustr ''const ''))
       (Seq (Group 1 (Plus_class (word_char U)))
         (Seq (Lit (ustr '' = try env.get(''))
           (Seq (Group 2 (key_alternatives U)) (Lit (ustr '')'')))))"

text \<open>Its replacement: \<open>const \1 = env.get(\2).?\<close>.\<close>

definition template1 :: "tpl_item list" where
  "template1 =
     [TLit (ustr ''const ''), TGroup 1, TLit (ustr '' = env.get(''), TGroup 2,
      TLit (ustr '').?'')]"

text \<open>Pattern 2: \<open>_ = try env\.get\(("[^"]+"|'[^']+'|[\w_]+)\)\<close>.\<close>

definition pattern2 :: "(codepoint \<Rightarrow> bool) \<Rightarrow> regex" where
  "pattern2 U =
     Seq (Lit (ustr ''_ = try env.get(''))
       (Seq (Group 1 (key_alternatives U)) (Lit (ustr '')'')))"

text \<open>Its replacement: \<open>_ = env.get(\1).?\<close>.\<close>

definition template2 :: "tpl_item list" where
  "template2 = [TLit (ustr ''_ = env.get(''), TGroup 1, TLit (ustr '').?'')]"

definition fix_env_get_calls :: "(codepoint \<Rightarrow> bool) \<Rightarrow> utext \<Rightarrow> utext" where
  "fix_env_get_calls U content =
     (let content = re_sub (pattern1 U) template1 content;
          content = re_sub (pattern2 U) template2 content
      in content)"

text \<open>A table for \<open>U\<close> with no alphanumeric character outside ASCII.\<close>

definition ascii_only :: "codepoint \<Rightarrow> bool" where
  "ascii_only c = False"

section \<open>The two command-line programs\<close>

text \<open>
  The world of a run: the text that reading each readable file in text mode returns,
  the files that can be opened for writing, the log of the calls of \<open>open\<close> (path, and
  whether for writing) and what was printed on standard output.
\<close>

record world =
  files :: "utext \<rightharpoonup> utext"
  writable :: "utext \<Rightarrow> bool"
  opened :: "(utext \<times> bool) list"
  stdout :: utext

text \<open>
  A run ends by exiting with a status, or with the exception that \<open>open\<close> or \<open>read\<close>
  raises and nothing catches.
\<close>

datatype outcome = Exit nat | Uncaught_exception

definition read_file :: "utext \<Rightarrow> world \<Rightarrow> world \<times> utext option" where
  "read_file filepath w =
     (w\<lparr>opened := opened w @ [(filepath, False)]\<rparr>, files w filepath)"

definition write_file :: "utext \<Rightarrow> utext \<Rightarrow> world \<Rightarrow> world \<times> bool" where
  "write_file filepath content w =
     (let w' = w\<lparr>opened := opened w @ [(filepath, True)]\<rparr>
      in if writable w filepath
         then (w'\<lparr>files := (files w')(filepath \<mapsto> content)\<rparr>, True)
         else (w', False))"

definition print :: "utext \<Rightarrow> world \<Rightarrow> world" where
  "print line w = w\<lparr>stdout := stdout w @ line @ [10]\<rparr>"

text \<open>\<open>argv\<close> is \<open>sys.argv\<close>: the name of the script, then the arguments.\<close>

definition main_fix_const_var :: "utext list \<Rightarrow> world \<Rightarrow> world \<times> outcome" where
  "main_fix_const_var argv w =
     (if length argv \<noteq> 2
      then (print (ustr ''Usage: python fix_const_var.py <file>'') w, Exit 1)
      else
        let filepath = argv ! 1 in
        case read_file filepath w of
          (w1, None) \<Rightarrow> (w1, Uncaught_exception)
        | (w1, Some content) \<Rightarrow>
            let fixed_content = fix_const_to_var content in
            case write_file filepath fixed_content w1 of
              (w2, False) \<Rightarrow> (w2, Uncaught_exception)
            | (w2, True) \<Rightarrow> (print (ustr ''Fixed '' @ filepath) w2, Exit 0))"

definition main_fix_tests ::
  "(codepoint \<Rightarrow> bool) \<Rightarrow> utext list \<Rightarrow> world \<Rightarrow> world \<times> outcome" where
  "main_fix_tests U argv w =
     (if length argv \<noteq> 2
      then (print (ustr ''Usage: python fix_tests.py <file>'') w, Exit 1)
      else
        let filepath = argv ! 1 in
        case read_file filepath w of
          (w1, None) \<Rightarrow> (w1, Uncaught_exception)
        | (w1, Some content) \<Rightarrow>
            let fixed_content = fix_env_get_calls U content in
            case write_file filepath fixed_content w1 of
              (w2, False) \<Rightarrow> (w2, Uncaught_exception)
            | (w2, True) \<Rightarrow> (print (ustr ''Fixed '' @ filepath) w2, Exit 0))"

section \<open>Notions of the specification\<close>

text \<open>
  \<open>matches_anywhere r s\<close>: the pattern \<open>r\<close> matches at some position of \<open>s\<close> (the end of
  the text included).
\<close>

fun matches_anywhere :: "regex \<Rightarrow> utext \<Rightarrow> bool" where
  "matches_anywhere r [] = (\<not> List.null (rmatch r [] Map.empty))"
| "matches_anywhere r (c # cs) =
     (\<not> List.null (rmatch r (c # cs) Map.empty) \<or> matches_anywhere r cs)"

text \<open>
  The shapes that the specification names. A quoted key is a quote character, a
  non-empty content without that quote character, and the quote character again; a
  bare identifier is a non-empty sequence of word characters.
\<close>

definition quoted :: "codepoint \<Rightarrow> utext \<Rightarrow> bool" where
  "quoted q k \<longleftrightarrow> 3 \<le> length k \<and> hd k = q \<and> last k = q \<and> q \<notin> set (butlast (tl k))"

definition bare_identifier :: "(codepoint \<Rightarrow> bool) \<Rightarrow> utext \<Rightarrow> bool" where
  "bare_identifier U k \<longleftrightarrow> k \<noteq> [] \<and> list_all (word_char U) k"

definition key_shape :: "(codepoint \<Rightarrow> bool) \<Rightarrow> utext \<Rightarrow> bool" where
  "key_shape U k \<longleftrightarrow> quoted 34 k \<or> quoted 39 k \<or> bare_identifier U k"

text \<open>
  The bound form \<open>const <identifier> = try env.get(<key>)\<close>, the discarded form
  \<open>_ = try env.get(<key>)\<close>, and what the specification says they become.
\<close>

definition bound_form :: "utext \<Rightarrow> utext \<Rightarrow> utext" where
  "bound_form ident key = ustr ''const '' @ ident @ ustr '' = try env.get('' @ key @ ustr '')''"

definition bound_form_rewritten :: "utext \<Rightarrow> utext \<Rightarrow> utext" where
  "bound_form_rewritten ident key =
     ustr ''const '' @ ident @ ustr '' = env.get('' @ key @ ustr '').?''"

definition discarded_form :: "utext \<Rightarrow> utext" where
  "discarded_form key = ustr ''_ = try env.get('' @ key @ ustr '')''"

definition discarded_form_rewritten :: "utext \<Rightarrow> utext" where
  "discarded_form_rewritten key = ustr ''_ = env.get('' @ key @ ustr '').?''"

text \<open>
  \<open>keys_closed a\<close>: the text \<open>a\<close> does not end inside a quoted key. A quote character
  right after \<open> = try env.get(\<close> opens a key; \<open>opens_unclosed_key s\<close> says that the first
  16 code points of \<open>s\<close> are \<open> = try env.get(\<close> and a quote character, and that this
  quote character does not occur after them in \<open>s\<close>; \<open>keys_closed a\<close> says that this
  holds at no position of \<open>a\<close>.
\<close>

definition opens_unclosed_key :: "utext \<Rightarrow> bool" where
  "opens_unclosed_key s \<longleftrightarrow>
     (prefix (ustr '' = try env.get('' @ [34]) s \<and> 34 \<notin> set (drop 16 s))
     \<or> (prefix (ustr '' = try env.get('' @ [39]) s \<and> 39 \<notin> set (drop 16 s))"

fun keys_closed :: "utext \<Rightarrow> bool" where
  "keys_closed [] = True"
| "keys_closed (c # cs) = (\<not> opens_unclosed_key (c # cs) \<and> keys_closed cs)"

text \<open>
  \<open>captured r n s\<close>: the texts that group \<open>n\<close> captures in the matches that
  \<open>re.sub(r, ..., s)\<close> replaces, in order (the scan is that of \<open>re_sub\<close>).
\<close>

function captured :: "regex \<Rightarrow> nat \<Rightarrow> utext \<Rightarrow> utext list" where
  "captured r n s =
     (case rmatch r s Map.empty of
        [] \<Rightarrow> (case s of [] \<Rightarrow> [] | c # cs \<Rightarrow> captured r n cs)
      | (s', g) # _ \<Rightarrow>
          (case g n of None \<Rightarrow> [] | Some x \<Rightarrow> [x])
          @ (if length s' < length s then captured r n s'
             else (case s of [] \<Rightarrow> [] | c # cs \<Rightarrow> captured r n cs)))"
  by pat_completeness auto
termination
  by (relation "measure (\<lambda>(r, n, s). length s)") auto

section \<open>Notions of the proofs\<close>

text \<open>
  \<open>inert v q\<close>: no non-empty suffix of \<open>q\<close> can begin where the replacement text \<open>v\<close>
  begins, so a copy of \<open>q\<close> in the output of a substitution was in its input.
\<close>

fun inert :: "utext \<Rightarrow> utext \<Rightarrow> bool" where
  "inert v [] = True"
| "inert v (x # q) = (\<not> prefix (x # q) v \<and> \<not> prefix v (x # q) \<and> inert v q)"

text \<open>
  \<open>starts_in l x z\<close>: in the text \<open>x @ z\<close> an occurrence of \<open>l\<close> starts inside \<open>x\<close>.
\<close>

definition starts_in :: "utext \<Rightarrow> utext \<Rightarrow> utext \<Rightarrow> bool" where
  "starts_in l x z \<longleftrightarrow> (\<exists>x'. x' \<noteq> [] \<and> suffix x' x \<and> prefix l (x' @ z))"

text \<open>
  Both patterns read a lead-in (\<open>const <identifier>\<close> or \<open>_\<close>), then
  \<open> = try env.get(\<close>, a key and \<open>)\<close>; both templates keep the lead-in and the key.
  \<open>pass U True\<close> is the first substitution of \<open>fix_env_get_calls\<close>, \<open>pass U False\<close> the
  second.
\<close>

definition occurrence :: "utext \<Rightarrow> utext \<Rightarrow> utext" where
  "occurrence pre key = pre @ ustr '' = try env.get('' @ key @ ustr '')''"

definition rewritten :: "utext \<Rightarrow> utext \<Rightarrow> utext" where
  "rewritten pre key = pre @ ustr '' = env.get('' @ key @ ustr '').?''"

definition lead_in :: "(codepoint \<Rightarrow> bool) \<Rightarrow> bool \<Rightarrow> utext \<Rightarrow> bool" where
  "lead_in U bound pre \<longleftrightarrow>
     (if bound then (\<exists>ident. bare_identifier U ident \<and> pre = ustr ''const '' @ ident)
      else pre = ustr ''_'')"

definition pat :: "(codepoint \<Rightarrow> bool) \<Rightarrow> bool \<Rightarrow> regex" where
  "pat U bound = (if bound then pattern1 U else pattern2 U)"

definition tpl :: "bool \<Rightarrow> tpl_item list" where
  "tpl bound = (if bound then template1 else template2)"

definition key_group :: "bool \<Rightarrow> nat" where
  "key_group bound = (if bound then 2 else 1)"

definition pass :: "(codepoint \<Rightarrow> bool) \<Rightarrow> bool \<Rightarrow> utext \<Rightarrow> utext" where
  "pass U bound s = re_sub (pat U bound) (tpl bound) s"

text \<open>
  \<open>junction U z\<close>: no match that starts before \<open>z\<close> can end inside \<open>z\<close> by way of a
  literal text of the patterns, a closing parenthesis or an opening quote at the head of
  \<open>z\<close>, or of a bare key that runs into \<open>z\<close>. \<open>no_binding U z\<close>: an identifier that runs
  into \<open>z\<close> is not followed by \<open> =\<close>. \<open>const_tail U a\<close>: the text \<open>a\<close> ends with
  \<open>const \<close> and word characters.
\<close>

definition junction :: "(codepoint \<Rightarrow> bool) \<Rightarrow> utext \<Rightarrow> bool" where
  "junction U z \<longleftrightarrow> z \<noteq> [] \<and> hd z \<notin> set (ustr ''onst = try env.get()'') \<and> hd z \<noteq> 34
     \<and> hd z \<noteq> 39 \<and> \<not> prefix [41] (dropWhile (word_char U) z)"

definition no_binding :: "(codepoint \<Rightarrow> bool) \<Rightarrow> utext \<Rightarrow> bool" where
  "no_binding U z \<longleftrightarrow> \<not> prefix [32, 61] (dropWhile (word_char U) z)"

definition const_tail :: "(codepoint \<Rightarrow> bool) \<Rightarrow> utext \<Rightarrow> bool" where
  "const_tail U a \<longleftrightarrow> (\<exists>y. list_all (word_char U) y \<and> suffix (ustr ''const '' @ y) a)"

section \<open>The scan of \<open>re.sub\<close>\<close>

lemma re_sub_Nil: "rmatch r [] Map.empty = [] \<Longrightarrow> re_sub r t [] = []"
  by (simp add: re_sub.simps)

lemma re_sub_copy:
  "rmatch r (c # cs) Map.empty = [] \<Longrightarrow> re_sub r t (c # cs) = c # re_sub r t cs"
  by (simp add: re_sub.simps)

lemma re_sub_replace:
  "rmatch r s Map.empty = (s', g) # ms \<Longrightarrow> length s' < length s \<Longrightarrow>
   re_sub r t s = expand t g @ re_sub r t s'"
  by (simp add: re_sub.simps)

lemma re_sub_no_match: "\<not> matches_anywhere r s \<Longrightarrow> re_sub r t s = s"
proof (induction s)
  case Nil
  then show ?case by (simp add: re_sub_Nil)
next
  case (Cons c cs)
  then show ?case by (simp add: re_sub_copy)
qed

section \<open>Substituting a literal text\<close>

lemma sub_lit_Nil: "l \<noteq> [] \<Longrightarrow> re_sub (Lit l) [TLit v] [] = []"
  by (simp add: re_sub_Nil)

lemma sub_lit_copy:
  "\<not> prefix l (c # cs) \<Longrightarrow>
   re_sub (Lit l) [TLit v] (c # cs) = c # re_sub (Lit l) [TLit v] cs"
  by (rule re_sub_copy) simp

lemma sub_lit_replace: "l \<noteq> [] \<Longrightarrow> re_sub (Lit l) [TLit v] (l @ b) = v @ re_sub (Lit l) [TLit v] b"
proof -
  assume l: "l \<noteq> []"
  have "rmatch (Lit l) (l @ b) Map.empty = [(b, Map.empty)]" by simp
  then have "re_sub (Lit l) [TLit v] (l @ b) = expand [TLit v] Map.empty @ re_sub (Lit l) [TLit v] b"
    by (rule re_sub_replace) (use l in simp)
  then show ?thesis by simp
qed

lemma lit_scan_induct [consumes 1, case_names Nil copy replace]:
  assumes "l \<noteq> []" and "Q []"
    and "\<And>c cs. \<not> prefix l (c # cs) \<Longrightarrow> Q cs \<Longrightarrow> Q (c # cs)"
    and "\<And>b. Q b \<Longrightarrow> Q (l @ b)"
  shows "Q s"
proof (induction s rule: length_induct)
  case (1 s)
  show ?case
  proof (cases "prefix l s")
    case True
    then obtain b where b: "s = l @ b"
      by (auto simp: prefix_def)
    then have "length b < length s" using assms(1) by simp
    with 1 have "Q b" by blast
    then show ?thesis unfolding b by (rule assms(4))
  next
    case False
    show ?thesis
    proof (cases s)
      case Nil
      then show ?thesis using assms(2) by simp
    next
      case (Cons c cs)
      then have "length cs < length s" by simp
      with 1 have "Q cs" by blast
      with False Cons show ?thesis using assms(3) by simp
    qed
  qed
qed

lemma sub_lit_unchanged: "l \<noteq> [] \<Longrightarrow> \<not> sublist l s \<Longrightarrow> re_sub (Lit l) [TLit v] s = s"
proof (induction s)
  case Nil
  then show ?case by (simp add: sub_lit_Nil)
next
  case (Cons c cs)
  from Cons.prems(2) have np: "\<not> prefix l (c # cs)" and ns: "\<not> sublist l cs"
    by (simp_all add: sublist_Cons_right)
  show ?case
    using sub_lit_copy [OF np] Cons.IH [OF Cons.prems(1) ns] by simp
qed

lemma lit_no_overlap:
  assumes "x \<notin> set q" and "a \<noteq> []" and "prefix (x # q) (a @ (x # q) @ b)"
  shows "prefix (x # q) a"
proof (cases "length (x # q) \<le> length a")
  case True
  then show ?thesis
    using prefix_length_prefix [OF assms(3), of a] by simp
next
  case False
  define n where "n = length a"
  have n: "0 < n" "n < length (x # q)" using False assms(2) by (simp_all add: n_def)
  obtain zs where zs: "a @ (x # q) @ b = (x # q) @ zs"
    using assms(3) by (auto simp: prefix_def)
  have "(a @ (x # q) @ b) ! n = x"
    by (simp add: n_def nth_append)
  then have "((x # q) @ zs) ! n = x"
    by (simp only: zs)
  then have "(x # q) ! n = x"
    using n by (simp only: nth_append if_True)
  then have "q ! (n - 1) = x" using n by (cases n) simp_all
  moreover have "n - 1 < length q" using n by simp
  ultimately have "x \<in> set q" using nth_mem by metis
  with assms(1) show ?thesis by simp
qed

lemma sub_lit_hom:
  assumes "x \<notin> set q"
  shows "re_sub (Lit (x # q)) [TLit v] (a @ (x # q) @ b) = re_sub (Lit (x # q)) [TLit v] a @ v @ re_sub (Lit (x # q)) [TLit v] b"
proof -
  have ne: "x # q \<noteq> []" by simp
  from ne show ?thesis
  proof (induction a rule: lit_scan_induct)
    case Nil
    show ?case using sub_lit_replace [OF ne, of v b] by (simp add: sub_lit_Nil)
  next
    case (copy c cs)
    have "\<not> prefix (x # q) ((c # cs) @ (x # q) @ b)"
      using lit_no_overlap [OF assms, of "c # cs" b] copy(1) by blast
    then have "re_sub (Lit (x # q)) [TLit v] ((c # cs) @ (x # q) @ b) = c # re_sub (Lit (x # q)) [TLit v] (cs @ (x # q) @ b)"
      using sub_lit_copy [of "x # q" c "cs @ (x # q) @ b" v] by simp
    then show ?case using copy sub_lit_copy [of "x # q" c cs v] by simp
  next
    case (replace a')
    show ?case
      using sub_lit_replace [OF ne, of v "a' @ (x # q) @ b"] sub_lit_replace [OF ne, of v a'] replace
      by simp
  qed
qed

lemma inert_prefix:
  "v \<noteq> [] \<Longrightarrow> l \<noteq> [] \<Longrightarrow> inert v q \<Longrightarrow> prefix q (re_sub (Lit l) [TLit v] t) \<Longrightarrow> prefix q t"
proof (induction q arbitrary: t)
  case Nil
  then show ?case by simp
next
  case (Cons x q)
  show ?case
  proof (cases "prefix l t")
    case True
    then obtain b where b: "t = l @ b" by (auto simp: prefix_def)
    have "prefix (x # q) (v @ re_sub (Lit l) [TLit v] b)"
      using Cons.prems(4) sub_lit_replace [OF Cons.prems(2), of v b] by (simp add: b)
    then have "prefix (x # q) v \<or> prefix v (x # q)"
      using prefix_same_cases [of "x # q" "v @ re_sub (Lit l) [TLit v] b" v] by simp
    with Cons.prems(3) show ?thesis by simp
  next
    case False
    show ?thesis
    proof (cases t)
      case Nil
      then show ?thesis using Cons.prems by (simp add: sub_lit_Nil)
    next
      case (Cons c cs)
      with False have "re_sub (Lit l) [TLit v] t = c # re_sub (Lit l) [TLit v] cs"
        using sub_lit_copy by simp
      with Cons.prems(4) have "x = c" "prefix q (re_sub (Lit l) [TLit v] cs)" by simp_all
      moreover have "inert v q" using Cons.prems(3) by simp
      ultimately have "prefix q cs" using Cons.IH Cons.prems(1,2) by blast
      with \<open>x = c\<close> Cons show ?thesis by simp
    qed
  qed
qed

lemma sub_lit_output_free:
  assumes "v \<noteq> []" and "x \<notin> set v" and "inert v q"
  shows "\<not> sublist (x # q) (re_sub (Lit (x # q)) [TLit v] s)"
proof -
  have ne: "x # q \<noteq> []" by simp
  from ne show ?thesis
  proof (induction s rule: lit_scan_induct)
    case Nil
    show ?case by (simp add: sub_lit_Nil)
  next
    case (copy c cs)
    have "\<not> prefix (x # q) (c # re_sub (Lit (x # q)) [TLit v] cs)"
    proof
      assume p: "prefix (x # q) (c # re_sub (Lit (x # q)) [TLit v] cs)"
      then have xc: "x = c" by simp
      have "prefix q (re_sub (Lit (x # q)) [TLit v] cs)" using p by auto
      then have "prefix q cs" using inert_prefix [OF assms(1) ne assms(3)] by blast
      with \<open>x = c\<close> copy(1) show False by simp
    qed
    then show ?case
      using copy sub_lit_copy [of "x # q" c cs v] by (simp add: sublist_Cons_right)
  next
    case (replace b)
    have "\<not> sublist (x # q) (v @ re_sub (Lit (x # q)) [TLit v] b)"
    proof
      assume "sublist (x # q) (v @ re_sub (Lit (x # q)) [TLit v] b)"
      then consider "sublist (x # q) v"
        | xs1 xs2 where "x # q = xs1 @ xs2" "suffix xs1 v" "prefix xs2 (re_sub (Lit (x # q)) [TLit v] b)"
        using replace by (auto simp: sublist_append)
      then show False
      proof cases
        case 1
        then have "x \<in> set v" by (auto simp: sublist_def)
        with assms(2) show False by simp
      next
        case 2
        show False
        proof (cases xs1)
          case Nil
          with 2 have "sublist (x # q) (re_sub (Lit (x # q)) [TLit v] b)" by auto
          with replace show False by simp
        next
          case (Cons y ys)
          with 2 have "y = x" by simp
          moreover have "y \<in> set v" using 2(2) Cons by (auto simp: suffix_def)
          ultimately show False using assms(2) by simp
        qed
      qed
    qed
    then show ?case using sub_lit_replace [OF ne, of v b] by simp
  qed
qed

section \<open>What the matcher accepts\<close>

lemma mem_rmatch_Lit:
  "(s', g') \<in> set (rmatch (Lit l) s g) \<longleftrightarrow> s = l @ s' \<and> g' = g"
  by (auto simp: prefix_def)

lemma set_rmatch_Plus_class:
  "set (rmatch (Plus_class P) s g)
     = (\<lambda>n. (drop n s, g)) ` {1..<Suc (length (takeWhile P s))}"
  by (simp del: upt_Suc)

lemma mem_rmatch_Plus_class:
  "(s', g') \<in> set (rmatch (Plus_class P) s g) \<longleftrightarrow>
     (\<exists>m. m \<noteq> [] \<and> (\<forall>x\<in>set m. P x) \<and> s = m @ s') \<and> g' = g"
proof
  assume "(s', g') \<in> set (rmatch (Plus_class P) s g)"
  then obtain n where n: "1 \<le> n" "n \<le> length (takeWhile P s)" and s': "s' = drop n s" and g: "g' = g"
    unfolding set_rmatch_Plus_class by auto
  have le: "n \<le> length s" using n(2) length_takeWhile_le [of P s] by linarith
  have "take n s = take n (takeWhile P s)"
    using n(2) by (metis takeWhile_dropWhile_id take_append diff_is_0_eq take_0 append_Nil2)
  then have "\<forall>x\<in>set (take n s). P x"
    by (metis in_set_takeD set_takeWhileD)
  moreover have "take n s \<noteq> []" using n(1) le by auto
  moreover have "s = take n s @ s'" by (simp add: s')
  ultimately show "(\<exists>m. m \<noteq> [] \<and> (\<forall>x\<in>set m. P x) \<and> s = m @ s') \<and> g' = g"
    using g by blast
next
  assume "(\<exists>m. m \<noteq> [] \<and> (\<forall>x\<in>set m. P x) \<and> s = m @ s') \<and> g' = g"
  then obtain m where m: "m \<noteq> []" "\<forall>x\<in>set m. P x" "s = m @ s'" and g: "g' = g"
    by blast
  have "length m \<le> length (takeWhile P s)"
    using m(2,3) by (simp add: takeWhile_append2)
  moreover have "1 \<le> length m" using m(1) by (cases m) simp_all
  moreover have "drop (length m) s = s'" using m(3) by simp
  ultimately have "(s', g) \<in> (\<lambda>n. (drop n s, g)) ` {1..<Suc (length (takeWhile P s))}"
    by (intro image_eqI [where x = "length m"]) auto
  then show "(s', g') \<in> set (rmatch (Plus_class P) s g)"
    using g unfolding set_rmatch_Plus_class by simp
qed

lemma mem_rmatch_Seq:
  "(s', g') \<in> set (rmatch (Seq a b) s g) \<longleftrightarrow>
     (\<exists>s1 g1. (s1, g1) \<in> set (rmatch a s g) \<and> (s', g') \<in> set (rmatch b s1 g1))"
  by auto

lemma mem_rmatch_Alt:
  "(s', g') \<in> set (rmatch (Alt a b) s g) \<longleftrightarrow>
     (s', g') \<in> set (rmatch a s g) \<or> (s', g') \<in> set (rmatch b s g)"
  by simp

lemma mem_rmatch_Group:
  "(s', g') \<in> set (rmatch (Group n a) s g) \<longleftrightarrow>
     (\<exists>g1. (s', g1) \<in> set (rmatch a s g) \<and> g' = g1(n \<mapsto> take (length s - length s') s))"
  by auto

section \<open>The two patterns of fix\_tests.py\<close>

lemma quoted_iff: "quoted q k \<longleftrightarrow> (\<exists>t. t \<noteq> [] \<and> q \<notin> set t \<and> k = q # t @ [q])"
proof
  assume a: "quoted q k"
  then have len: "3 \<le> length k" by (simp add: quoted_def)
  then obtain x k' where k: "k = x # k'" by (cases k) auto
  with len have "k' \<noteq> []" by auto
  then obtain t y where k': "k' = t @ [y]" by (metis rev_exhaust)
  have "t \<noteq> []" using len k k' by auto
  moreover have "x = q" "y = q" "q \<notin> set t" using a k k' by (simp_all add: quoted_def)
  ultimately show "\<exists>t. t \<noteq> [] \<and> q \<notin> set t \<and> k = q # t @ [q]" using k k' by blast
next
  assume "\<exists>t. t \<noteq> [] \<and> q \<notin> set t \<and> k = q # t @ [q]"
  then obtain t where "t \<noteq> []" "q \<notin> set t" "k = q # t @ [q]" by blast
  then show "quoted q k" by (cases t) (simp_all add: quoted_def)
qed

lemma word_or_underscore_eq: "word_or_underscore U = word_char U"
  by (auto simp: word_or_underscore_def word_char_def ascii_word_def fun_eq_iff)

lemma not_word_char [simp]:
  "\<not> word_char U 10" "\<not> word_char U 32" "\<not> word_char U 34" "\<not> word_char U 39"
  "\<not> word_char U 40" "\<not> word_char U 41" "\<not> word_char U 46" "\<not> word_char U 61"
  "\<not> word_char U 63"
  by (simp_all add: word_char_def ascii_word_def)

lemma list_all_iff_ball: "list_all P xs \<longleftrightarrow> (\<forall>x\<in>set xs. P x)"
  by (simp add: list_all_iff)

lemma rmatch_quoted_iff:
  "(s', g') \<in> set (rmatch (Seq (Lit [q]) (Seq (Plus_class (\<lambda>c. c \<noteq> q)) (Lit [q]))) s g)
     \<longleftrightarrow> g' = g \<and> (\<exists>k. quoted q k \<and> s = k @ s')"
  unfolding mem_rmatch_Seq mem_rmatch_Lit mem_rmatch_Plus_class quoted_iff
  by (auto | force)+

lemma rmatch_key_alternatives_iff:
  "(s', g') \<in> set (rmatch (key_alternatives U) s g)
     \<longleftrightarrow> g' = g \<and> (\<exists>k. key_shape U k \<and> s = k @ s')"
proof -
  have dq: "not_dquote = (\<lambda>c. c \<noteq> 34)" and sq: "not_squote = (\<lambda>c. c \<noteq> 39)"
    by (simp_all add: not_dquote_def not_squote_def fun_eq_iff)
  show ?thesis
    unfolding key_alternatives_def mem_rmatch_Alt dq sq rmatch_quoted_iff
      word_or_underscore_eq mem_rmatch_Plus_class key_shape_def bare_identifier_def
      list_all_iff_ball
    by blast
qed

lemma rmatch_pattern1_iff:
  "(s', g') \<in> set (rmatch (pattern1 U) s g) \<longleftrightarrow>
     (\<exists>ident key. bare_identifier U ident \<and> key_shape U key
        \<and> s = bound_form ident key @ s' \<and> g' = g(1 \<mapsto> ident, 2 \<mapsto> key))"
  unfolding pattern1_def mem_rmatch_Seq mem_rmatch_Lit mem_rmatch_Group
    mem_rmatch_Plus_class rmatch_key_alternatives_iff bare_identifier_def
    list_all_iff_ball bound_form_def
  by (auto | force)+

lemma rmatch_pattern2_iff:
  "(s', g') \<in> set (rmatch (pattern2 U) s g) \<longleftrightarrow>
     (\<exists>key. key_shape U key \<and> s = discarded_form key @ s' \<and> g' = g(1 \<mapsto> key))"
  unfolding pattern2_def mem_rmatch_Seq mem_rmatch_Lit mem_rmatch_Group
    rmatch_key_alternatives_iff discarded_form_def
  by (auto | force)+

lemma run_unique:
  assumes "list_all P m" "list_all P m'" "\<not> P x" "\<not> P x'" "m @ x # r = m' @ x' # r'"
  shows "m = m' \<and> r = r'"
proof -
  have "takeWhile P (m @ x # r) = m" using assms(1,3) by (simp add: takeWhile_append2 list_all_iff)
  moreover have "takeWhile P (m' @ x' # r') = m'"
    using assms(2,4) by (simp add: takeWhile_append2 list_all_iff)
  ultimately have "m = m'" using assms(5) by simp
  with assms(5) show ?thesis by simp
qed

lemma key_unique:
  assumes "key_shape U k" "key_shape U k'" "k @ 41 # r = k' @ 41 # r'"
  shows "k = k' \<and> r = r'"
proof -
  have q: "t = t' \<and> r = r'"
    if "q \<notin> set t" "q \<notin> set t'" "t @ q # 41 # r = t' @ q # 41 # r'" for q :: nat and t t'
    using run_unique [of "\<lambda>c. c \<noteq> q" t t' q q "41 # r" "41 # r'"] that
    by (auto simp: list_all_iff)
  have b: "k = k' \<and> r = r'" if "bare_identifier U k" "bare_identifier U k'"
    using run_unique [of "word_char U" k k' 41 41 r r'] that assms(3)
    by (simp add: bare_identifier_def)
  have hd_b: "word_char U (hd (k @ 41 # r))" if "bare_identifier U k" for k r
    using that by (cases k) (simp_all add: bare_identifier_def)
  have hd_q: "hd (k @ 41 # r) = q" if "quoted q k" for k r q
    using that by (auto simp: quoted_iff)
  consider "quoted 34 k" | "quoted 39 k" | "bare_identifier U k"
    using assms(1) by (auto simp: key_shape_def)
  then show ?thesis
  proof cases
    case 1
    consider "quoted 34 k'" | "quoted 39 k'" | "bare_identifier U k'"
      using assms(2) by (auto simp: key_shape_def)
    then show ?thesis
    proof cases
      case 1
      with \<open>quoted 34 k\<close> q [of 34] assms(3) show ?thesis by (auto simp: quoted_iff)
    next
      case 2
      with \<open>quoted 34 k\<close> hd_q [of 34 k r] hd_q [of 39 k' r'] assms(3) show ?thesis by simp
    next
      case 3
      with \<open>quoted 34 k\<close> hd_q [of 34 k r] hd_b [of k' r'] assms(3) show ?thesis by simp
    qed
  next
    case 2
    consider "quoted 34 k'" | "quoted 39 k'" | "bare_identifier U k'"
      using assms(2) by (auto simp: key_shape_def)
    then show ?thesis
    proof cases
      case 1
      with \<open>quoted 39 k\<close> hd_q [of 39 k r] hd_q [of 34 k' r'] assms(3) show ?thesis by simp
    next
      case 2
      with \<open>quoted 39 k\<close> q [of 39] assms(3) show ?thesis by (auto simp: quoted_iff)
    next
      case 3
      with \<open>quoted 39 k\<close> hd_q [of 39 k r] hd_b [of k' r'] assms(3) show ?thesis by simp
    qed
  next
    case 3
    consider "quoted 34 k'" | "quoted 39 k'" | "bare_identifier U k'"
      using assms(2) by (auto simp: key_shape_def)
    then show ?thesis
    proof cases
      case 1
      with \<open>bare_identifier U k\<close> hd_b [of k r] hd_q [of 34 k' r'] assms(3) show ?thesis by simp
    next
      case 2
      with \<open>bare_identifier U k\<close> hd_b [of k r] hd_q [of 39 k' r'] assms(3) show ?thesis by simp
    next
      case 3
      with \<open>bare_identifier U k\<close> b show ?thesis by simp
    qed
  qed
qed

lemma bound_form_unique:
  assumes "bare_identifier U i" "key_shape U k" "bare_identifier U i'" "key_shape U k'"
    and "bound_form i k @ r = bound_form i' k' @ r'"
  shows "i = i' \<and> k = k' \<and> r = r'"
proof -
  from assms(5) have e: "i @ 32 # (ustr ''= try env.get('' @ k @ 41 # r)
      = i' @ 32 # (ustr ''= try env.get('' @ k' @ 41 # r')"
    by (simp add: bound_form_def)
  have i: "i = i'" and "ustr ''= try env.get('' @ k @ 41 # r = ustr ''= try env.get('' @ k' @ 41 # r'"
    using run_unique [OF _ _ _ _ e, of "word_char U"] assms(1,3)
    by (simp_all add: bare_identifier_def)
  then have "k @ 41 # r = k' @ 41 # r'" by simp
  with key_unique [OF assms(2,4)] i show ?thesis by simp
qed

lemma discarded_form_unique:
  assumes "key_shape U k" "key_shape U k'" "discarded_form k @ r = discarded_form k' @ r'"
  shows "k = k' \<and> r = r'"
  using key_unique [OF assms(1,2), of r r'] assms(3) by (simp add: discarded_form_def)

lemma re_sub_scan_induct [consumes 1, case_names Nil copy replace]:
  assumes shorter: "\<And>s s' g ms. rmatch r s Map.empty = (s', g) # ms \<Longrightarrow> length s' < length s"
    and "Q []"
    and "\<And>c cs. rmatch r (c # cs) Map.empty = [] \<Longrightarrow> Q cs \<Longrightarrow> Q (c # cs)"
    and "\<And>s s' g ms. rmatch r s Map.empty = (s', g) # ms \<Longrightarrow> Q s' \<Longrightarrow> Q s"
  shows "Q s"
proof (induction s rule: length_induct)
  case (1 s)
  show ?case
  proof (cases "rmatch r s Map.empty")
    case Nil
    show ?thesis
    proof (cases s)
      case Nil
      then show ?thesis using assms(2) by simp
    next
      case (Cons c cs)
      then have "Q cs" using 1 by simp
      with Nil Cons show ?thesis using assms(3) by simp
    qed
  next
    case (Cons m ms)
    obtain s' g where m: "m = (s', g)" by (cases m)
    have "length s' < length s" using shorter Cons m by blast
    then have "Q s'" using 1 by blast
    then show ?thesis using assms(4) Cons m by blast
  qed
qed

lemma re_sub_empty_text:
  assumes "\<And>s s' g ms. rmatch r s Map.empty = (s', g) # ms \<Longrightarrow> length s' < length s"
  shows "re_sub r t [] = []"
proof (cases "rmatch r [] Map.empty")
  case Nil
  then show ?thesis by (rule re_sub_Nil)
next
  case (Cons m ms)
  then show ?thesis using assms [of "[]" "fst m" "snd m" ms] by simp
qed

lemma pattern1_match_sound:
  assumes "rmatch (pattern1 U) s Map.empty = (s', g) # ms"
  shows "\<exists>ident key. bare_identifier U ident \<and> key_shape U key
           \<and> s = bound_form ident key @ s' \<and> g = [1 \<mapsto> ident, 2 \<mapsto> key]"
proof -
  have "(s', g) \<in> set (rmatch (pattern1 U) s Map.empty)" using assms by simp
  then show ?thesis unfolding rmatch_pattern1_iff .
qed

lemma pattern1_match_complete:
  assumes "bare_identifier U ident" "key_shape U key"
  shows "\<exists>ms. rmatch (pattern1 U) (bound_form ident key @ r) Map.empty
           = (r, [1 \<mapsto> ident, 2 \<mapsto> key]) # ms"
proof -
  have "(r, [1 \<mapsto> ident, 2 \<mapsto> key]) \<in> set (rmatch (pattern1 U) (bound_form ident key @ r) Map.empty)"
    unfolding rmatch_pattern1_iff using assms by blast
  then obtain m ms where ms: "rmatch (pattern1 U) (bound_form ident key @ r) Map.empty = m # ms"
    by (cases "rmatch (pattern1 U) (bound_form ident key @ r) Map.empty") auto
  obtain s' g where m: "m = (s', g)" by (cases m)
  obtain i k where ik: "bare_identifier U i" "key_shape U k"
      "bound_form ident key @ r = bound_form i k @ s'" "g = [1 \<mapsto> i, 2 \<mapsto> k]"
    using pattern1_match_sound [of U "bound_form ident key @ r" s' g ms] ms m by auto
  have "ident = i \<and> key = k \<and> r = s'"
    using bound_form_unique [OF assms ik(1,2,3)] .
  with ms m ik(4) show ?thesis by simp
qed

lemma rmatch_pattern1_shorter:
  "rmatch (pattern1 U) s Map.empty = (s', g) # ms \<Longrightarrow> length s' < length s"
  by (drule pattern1_match_sound) (auto simp: bound_form_def)

lemma expand_template1:
  "expand template1 [1 \<mapsto> ident, 2 \<mapsto> key] = bound_form_rewritten ident key"
  by (simp add: template1_def bound_form_rewritten_def)

lemma pattern2_match_sound:
  assumes "rmatch (pattern2 U) s Map.empty = (s', g) # ms"
  shows "\<exists>key. key_shape U key \<and> s = discarded_form key @ s' \<and> g = [1 \<mapsto> key]"
proof -
  have "(s', g) \<in> set (rmatch (pattern2 U) s Map.empty)" using assms by simp
  then show ?thesis unfolding rmatch_pattern2_iff .
qed

lemma pattern2_match_complete:
  assumes "key_shape U key"
  shows "\<exists>ms. rmatch (pattern2 U) (discarded_form key @ r) Map.empty = (r, [1 \<mapsto> key]) # ms"
proof -
  have "(r, [1 \<mapsto> key]) \<in> set (rmatch (pattern2 U) (discarded_form key @ r) Map.empty)"
    unfolding rmatch_pattern2_iff using assms by blast
  then obtain m ms where ms: "rmatch (pattern2 U) (discarded_form key @ r) Map.empty = m # ms"
    by (cases "rmatch (pattern2 U) (discarded_form key @ r) Map.empty") auto
  obtain s' g where m: "m = (s', g)" by (cases m)
  obtain k where k: "key_shape U k" "discarded_form key @ r = discarded_form k @ s'"
      "g = [1 \<mapsto> k]"
    using pattern2_match_sound [of U "discarded_form key @ r" s' g ms] ms m by auto
  have "key = k \<and> r = s'"
    using discarded_form_unique [OF assms k(1,2)] .
  with ms m k(3) show ?thesis by simp
qed

lemma rmatch_pattern2_shorter:
  "rmatch (pattern2 U) s Map.empty = (s', g) # ms \<Longrightarrow> length s' < length s"
  by (drule pattern2_match_sound) (auto simp: discarded_form_def)

lemma expand_template2:
  "expand template2 [1 \<mapsto> key] = discarded_form_rewritten key"
  by (simp add: template2_def discarded_form_rewritten_def)

lemma re_sub_pattern1_replace:
  assumes "bare_identifier U ident" "key_shape U key"
  shows "re_sub (pattern1 U) template1 (bound_form ident key @ r)
           = bound_form_rewritten ident key @ re_sub (pattern1 U) template1 r"
proof -
  obtain ms where ms: "rmatch (pattern1 U) (bound_form ident key @ r) Map.empty
           = (r, [1 \<mapsto> ident, 2 \<mapsto> key]) # ms"
    using pattern1_match_complete [OF assms] by blast
  show ?thesis
    using re_sub_replace [OF ms rmatch_pattern1_shorter [OF ms], of template1]
    by (simp only: expand_template1)
qed

lemma re_sub_pattern2_replace:
  assumes "key_shape U key"
  shows "re_sub (pattern2 U) template2 (discarded_form key @ r)
           = discarded_form_rewritten key @ re_sub (pattern2 U) template2 r"
proof -
  obtain ms where ms: "rmatch (pattern2 U) (discarded_form key @ r) Map.empty
           = (r, [1 \<mapsto> key]) # ms"
    using pattern2_match_complete [OF assms] by blast
  show ?thesis
    using re_sub_replace [OF ms rmatch_pattern2_shorter [OF ms], of template2]
    by (simp only: expand_template2)
qed

lemma pattern1_scan_induct [case_names Nil copy replace]:
  assumes "Q []"
    and "\<And>c cs. rmatch (pattern1 U) (c # cs) Map.empty = [] \<Longrightarrow> Q cs \<Longrightarrow> Q (c # cs)"
    and "\<And>ident key r. bare_identifier U ident \<Longrightarrow> key_shape U key \<Longrightarrow> Q r
           \<Longrightarrow> Q (bound_form ident key @ r)"
  shows "Q s"
proof (rule re_sub_scan_induct [where r = "pattern1 U"])
  show "length s' < length s" if "rmatch (pattern1 U) s Map.empty = (s', g) # ms" for s s' g ms
    using that by (rule rmatch_pattern1_shorter)
  show "Q []" by (rule assms(1))
  show "Q (c # cs)" if "rmatch (pattern1 U) (c # cs) Map.empty = []" "Q cs" for c cs
    using that by (rule assms(2))
  show "Q s" if "rmatch (pattern1 U) s Map.empty = (s', g) # ms" "Q s'" for s s' g ms
    using pattern1_match_sound [OF that(1)] that(2) assms(3) by blast
qed

lemma pattern2_scan_induct [case_names Nil copy replace]:
  assumes "Q []"
    and "\<And>c cs. rmatch (pattern2 U) (c # cs) Map.empty = [] \<Longrightarrow> Q cs \<Longrightarrow> Q (c # cs)"
    and "\<And>key r. key_shape U key \<Longrightarrow> Q r \<Longrightarrow> Q (discarded_form key @ r)"
  shows "Q s"
proof (rule re_sub_scan_induct [where r = "pattern2 U"])
  show "length s' < length s" if "rmatch (pattern2 U) s Map.empty = (s', g) # ms" for s s' g ms
    using that by (rule rmatch_pattern2_shorter)
  show "Q []" by (rule assms(1))
  show "Q (c # cs)" if "rmatch (pattern2 U) (c # cs) Map.empty = []" "Q cs" for c cs
    using that by (rule assms(2))
  show "Q s" if "rmatch (pattern2 U) s Map.empty = (s', g) # ms" "Q s'" for s s' g ms
    using pattern2_match_sound [OF that(1)] that(2) assms(3) by blast
qed

lemma re_sub_pattern1_Nil: "re_sub (pattern1 U) template1 [] = []"
  by (rule re_sub_empty_text) (rule rmatch_pattern1_shorter)

lemma re_sub_pattern2_Nil: "re_sub (pattern2 U) template2 [] = []"
  by (rule re_sub_empty_text) (rule rmatch_pattern2_shorter)

lemma count_bound_form:
  "count_list (bound_form_rewritten ident key) 10 = count_list (bound_form ident key) 10"
  by (simp add: bound_form_def bound_form_rewritten_def)

lemma count_discarded_form:
  "count_list (discarded_form_rewritten key) 10 = count_list (discarded_form key) 10"
  by (simp add: discarded_form_def discarded_form_rewritten_def)

lemma count_re_sub_pattern1:
  "count_list (re_sub (pattern1 U) template1 s) 10 = count_list s 10"
proof (induction s rule: pattern1_scan_induct [where U = U])
  case Nil
  show ?case by (simp add: re_sub_pattern1_Nil)
next
  case (copy c cs)
  then show ?case by (simp add: re_sub_copy)
next
  case (replace ident key r)
  then show ?case by (simp add: re_sub_pattern1_replace count_bound_form)
qed

lemma count_re_sub_pattern2:
  "count_list (re_sub (pattern2 U) template2 s) 10 = count_list s 10"
proof (induction s rule: pattern2_scan_induct [where U = U])
  case Nil
  show ?case by (simp add: re_sub_pattern2_Nil)
next
  case (copy c cs)
  then show ?case by (simp add: re_sub_copy)
next
  case (replace key r)
  then show ?case by (simp add: re_sub_pattern2_replace count_discarded_form)
qed

lemma count_sub_lit:
  assumes "l \<noteq> []" "count_list v x = count_list l x"
  shows "count_list (re_sub (Lit l) [TLit v] s) x = count_list s x"
  using assms(1)
proof (induction s rule: lit_scan_induct)
  case Nil
  show ?case using assms(1) by (simp add: sub_lit_Nil)
next
  case (copy c cs)
  then show ?case by (simp add: sub_lit_copy)
next
  case (replace b)
  then show ?case using assms by (simp add: sub_lit_replace)
qed

section \<open>Text that the scan copies\<close>

lemma re_sub_skip:
  assumes "\<And>a'. a' \<noteq> [] \<Longrightarrow> suffix a' a \<Longrightarrow> rmatch r (a' @ z) Map.empty = []"
  shows "re_sub r t (a @ z) = a @ re_sub r t z"
  using assms
proof (induction a)
  case Nil
  show ?case by simp
next
  case (Cons c cs)
  have "rmatch r ((c # cs) @ z) Map.empty = []"
    using Cons.prems [of "c # cs"] by simp
  then have "re_sub r t ((c # cs) @ z) = c # re_sub r t (cs @ z)"
    by (simp add: re_sub_copy)
  moreover have "re_sub r t (cs @ z) = cs @ re_sub r t z"
  proof (rule Cons.IH)
    fix a' assume "a' \<noteq> []" "suffix a' cs"
    then show "rmatch r (a' @ z) Map.empty = []"
      using Cons.prems [of a'] by (simp add: suffix_Cons)
  qed
  ultimately show ?case by simp
qed

lemma no_prefix_across:
  assumes "\<not> sublist l a" "a' \<noteq> []" "suffix a' a" "z = [] \<or> hd z \<notin> set (tl l)"
  shows "\<not> prefix l (a' @ z)"
proof
  assume p: "prefix l (a' @ z)"
  show False
  proof (cases "length l \<le> length a'")
    case True
    then have "prefix l a'" using p prefix_length_prefix [of l "a' @ z" a'] by simp
    then have "sublist l a"
      using assms(3) by (auto simp: prefix_def suffix_def sublist_def)
    with assms(1) show False by simp
  next
    case False
    then have lt: "length a' < length l" by simp
    have pos: "0 < length a'" using assms(2) by simp
    obtain zs where zs: "a' @ z = l @ zs" using p by (auto simp: prefix_def)
    have z: "z \<noteq> []" using zs lt by (cases z) auto
    then have "hd z = (a' @ z) ! length a'" by (simp add: nth_append hd_conv_nth)
    also have "\<dots> = l ! length a'" using zs lt by (simp add: nth_append)
    also have "\<dots> = tl l ! (length a' - 1)" using pos lt by (cases l) (auto simp: nth_Cons')
    finally have "hd z = tl l ! (length a' - 1)" .
    moreover have "length a' - 1 < length (tl l)" using pos lt by (cases a') auto
    ultimately have "hd z \<in> set (tl l)" using nth_mem by metis
    with z assms(4) show False by simp
  qed
qed

lemma re_sub_skip_head:
  assumes lead: "\<And>s. \<not> prefix l s \<Longrightarrow> rmatch r s Map.empty = []"
    and "l \<noteq> []" "hd l \<notin> set a"
  shows "re_sub r t (a @ z) = a @ re_sub r t z"
proof (rule re_sub_skip)
  fix a' assume a': "a' \<noteq> []" "suffix a' a"
  then have "hd a' \<in> set a" by (auto simp: suffix_def)
  then have "hd (a' @ z) \<noteq> hd l" using assms(3) a'(1) by auto
  then have "\<not> prefix l (a' @ z)" using assms(2) a'(1) by (cases l; cases a') auto
  then show "rmatch r (a' @ z) Map.empty = []" by (rule lead)
qed

lemma re_sub_skip_free:
  assumes lead: "\<And>s. \<not> prefix l s \<Longrightarrow> rmatch r s Map.empty = []"
    and "\<not> sublist l a" "z = [] \<or> hd z \<notin> set (tl l)"
  shows "re_sub r t (a @ z) = a @ re_sub r t z"
proof (rule re_sub_skip)
  fix a' assume a': "a' \<noteq> []" "suffix a' a"
  have "\<not> prefix l (a' @ z)" using no_prefix_across [OF assms(2) a' assms(3)] .
  then show "rmatch r (a' @ z) Map.empty = []" by (rule lead)
qed

lemma pattern1_lead: "\<not> prefix (ustr ''const '') s \<Longrightarrow> rmatch (pattern1 U) s g = []"
  by (simp add: pattern1_def)

lemma pattern2_lead:
  "\<not> prefix (ustr ''_ = try env.get('') s \<Longrightarrow> rmatch (pattern2 U) s g = []"
  by (simp add: pattern2_def)

lemma re_sub_pattern2_skip_word:
  assumes "list_all (word_char U) w" "\<not> prefix (ustr '' = try env.get('') z"
  shows "re_sub (pattern2 U) template2 (w @ z) = w @ re_sub (pattern2 U) template2 z"
proof (rule re_sub_skip)
  fix a' assume a': "a' \<noteq> []" "suffix a' w"
  then obtain c cs where c: "a' = c # cs" by (cases a') auto
  have w: "list_all (word_char U) cs" using a'(2) assms(1) c
    by (auto simp: suffix_def list_all_iff)
  have "\<not> prefix (ustr ''_ = try env.get('') (a' @ z)"
  proof (cases cs)
    case Nil
    then show ?thesis using assms(2) c by simp
  next
    case (Cons d ds)
    then have "word_char U d" using w by simp
    then have "d \<noteq> 32" using not_word_char(2) by blast
    then show ?thesis using c Cons by simp
  qed
  then show "rmatch (pattern2 U) (a' @ z) Map.empty = []" by (rule pattern2_lead)
qed

section \<open>The empty text\<close>

lemma fix_env_get_calls_Nil: "fix_env_get_calls U [] = []"
  by (simp add: fix_env_get_calls_def re_sub_pattern1_Nil re_sub_pattern2_Nil)

section \<open>Newlines in a match\<close>

lemma bare_identifier_no_newline: "bare_identifier U w \<Longrightarrow> 10 \<notin> set w"
  using not_word_char(1) [of U] by (auto simp: bare_identifier_def list_all_iff)

lemma key_newline_quoted:
  "key_shape U key \<Longrightarrow> 10 \<in> set key \<Longrightarrow> quoted 34 key \<or> quoted 39 key"
  using bare_identifier_no_newline [of U key] by (auto simp: key_shape_def)

section \<open>Where an occurrence can start\<close>

lemma starts_in_Nil [simp]: "\<not> starts_in l [] z"
  by (simp add: starts_in_def)

lemma starts_in_Cons: "starts_in l (c # x) z \<longleftrightarrow> prefix l (c # x @ z) \<or> starts_in l x z"
proof -
  have "starts_in l (c # x) z \<longleftrightarrow>
      (\<exists>x'. x' \<noteq> [] \<and> (x' = c # x \<or> suffix x' x) \<and> prefix l (x' @ z))"
    by (simp only: starts_in_def suffix_Cons)
  also have "\<dots> \<longleftrightarrow> prefix l ((c # x) @ z) \<or> starts_in l x z"
    unfolding starts_in_def by blast
  finally show ?thesis by simp
qed

lemma starts_in_append: "starts_in l (x @ y) z \<longleftrightarrow> starts_in l x (y @ z) \<or> starts_in l y z"
  by (induction x) (simp_all add: starts_in_Cons)

lemma starts_in_head:
  assumes "l \<noteq> []" "hd l \<notin> set x"
  shows "\<not> starts_in l x z"
proof
  assume "starts_in l x z"
  then obtain x' where x': "x' \<noteq> []" "suffix x' x" "prefix l (x' @ z)"
    by (auto simp: starts_in_def)
  from x'(1,2) have "hd x' \<in> set x" by (auto simp: suffix_def)
  moreover have "hd l = hd x'"
    using x'(1,3) assms(1) by (cases l; cases x') auto
  ultimately show False using assms(2) by simp
qed

lemma starts_in_free:
  assumes "\<not> sublist l x" "z = [] \<or> hd z \<notin> set (tl l)"
  shows "\<not> starts_in l x z"
proof
  assume "starts_in l x z"
  then obtain x' where "x' \<noteq> []" "suffix x' x" "prefix l (x' @ z)"
    unfolding starts_in_def by blast
  then show False using no_prefix_across [OF assms(1) _ _ assms(2), of x'] by blast
qed

lemma starts_in_last:
  assumes "\<not> sublist l x" "x \<noteq> []" "last x \<notin> set l"
  shows "\<not> starts_in l x z"
proof
  assume "starts_in l x z"
  then obtain x' where x': "x' \<noteq> []" "suffix x' x" "prefix l (x' @ z)"
    by (auto simp: starts_in_def)
  show False
  proof (cases "length l \<le> length x'")
    case True
    then have "prefix l x'" using x'(3) prefix_length_prefix [of l "x' @ z" x'] by simp
    then have "sublist l x" using x'(2) by (auto simp: prefix_def suffix_def sublist_def)
    with assms(1) show False by simp
  next
    case False
    then have "prefix x' l"
      using x'(3) prefix_length_prefix [of x' "x' @ z" l] by simp
    then have "last x' \<in> set l" using x'(1) by (auto simp: prefix_def)
    moreover have "last x' = last x" using x'(1,2) by (auto simp: suffix_def)
    ultimately show False using assms(3) by simp
  qed
qed

lemma sublist_iff_starts_in: "l \<noteq> [] \<Longrightarrow> sublist l x \<longleftrightarrow> starts_in l x []"
proof
  assume l: "l \<noteq> []" and "sublist l x"
  then obtain ps ss where "x = ps @ l @ ss" by (auto simp: sublist_def)
  then have "suffix (l @ ss) x" "prefix l ((l @ ss) @ [])" "l @ ss \<noteq> []"
    using l by (auto simp: suffix_def)
  then show "starts_in l x []" unfolding starts_in_def by blast
next
  assume "starts_in l x []"
  then show "sublist l x" by (auto simp: starts_in_def suffix_def prefix_def sublist_def)
qed

lemma re_sub_skip_region:
  assumes lead: "\<And>s. \<not> prefix l s \<Longrightarrow> rmatch r s Map.empty = []"
    and "\<not> starts_in l a z"
  shows "re_sub r t (a @ z) = a @ re_sub r t z"
proof (rule re_sub_skip)
  fix a' assume "a' \<noteq> []" "suffix a' a"
  then have "\<not> prefix l (a' @ z)" using assms(2) by (auto simp: starts_in_def)
  then show "rmatch r (a' @ z) Map.empty = []" by (rule lead)
qed

lemma matches_anywhere_append:
  "matches_anywhere r (x @ z) \<longleftrightarrow>
     (\<exists>x'. x' \<noteq> [] \<and> suffix x' x \<and> rmatch r (x' @ z) Map.empty \<noteq> []) \<or> matches_anywhere r z"
proof (induction x)
  case Nil
  show ?case by simp
next
  case (Cons c x)
  have "(\<exists>x'. x' \<noteq> [] \<and> suffix x' (c # x) \<and> rmatch r (x' @ z) Map.empty \<noteq> [])
      \<longleftrightarrow> (\<exists>x'. x' \<noteq> [] \<and> (x' = c # x \<or> suffix x' x) \<and> rmatch r (x' @ z) Map.empty \<noteq> [])"
    by (simp only: suffix_Cons)
  also have "\<dots> \<longleftrightarrow> rmatch r ((c # x) @ z) Map.empty \<noteq> []
          \<or> (\<exists>x'. x' \<noteq> [] \<and> suffix x' x \<and> rmatch r (x' @ z) Map.empty \<noteq> [])"
    by blast
  finally show ?case using Cons by simp
qed

lemma matches_anywhere_suffix:
  "suffix x s \<Longrightarrow> rmatch r x Map.empty \<noteq> [] \<Longrightarrow> matches_anywhere r s"
proof (induction s)
  case Nil
  then show ?case by simp
next
  case (Cons c s)
  from Cons.prems(1) consider "x = c # s" | "suffix x s" by (auto simp: suffix_Cons)
  then show ?case
  proof cases
    case 1
    with Cons.prems(2) show ?thesis by simp
  next
    case 2
    with Cons show ?thesis by simp
  qed
qed

section \<open>The two substitutions as one scheme\<close>

declare captured.simps [simp del]

lemma captured_copy:
  "rmatch r (c # cs) Map.empty = [] \<Longrightarrow> captured r n (c # cs) = captured r n cs"
  by (simp add: captured.simps)

lemma captured_replace:
  "rmatch r s Map.empty = (s', g) # ms \<Longrightarrow> length s' < length s \<Longrightarrow> g n = Some k \<Longrightarrow>
   captured r n s = k # captured r n s'"
  by (simp add: captured.simps)

lemma lead_in_cases [consumes 1, case_names bound discarded]:
  assumes "lead_in U b pre"
    and "\<And>ident. b \<Longrightarrow> bare_identifier U ident \<Longrightarrow> pre = ustr ''const '' @ ident \<Longrightarrow> R"
    and "\<not> b \<Longrightarrow> pre = ustr ''_'' \<Longrightarrow> R"
  shows R
  using assms unfolding lead_in_def by (cases b) auto

lemma bare_identifier_not_word:
  "bare_identifier U w \<Longrightarrow> \<not> word_char U c \<Longrightarrow> c \<notin> set w"
  by (auto simp: bare_identifier_def list_all_iff)

lemma lead_in_nonempty: "lead_in U b pre \<Longrightarrow> pre \<noteq> []"
  by (erule lead_in_cases) simp_all

lemma lead_in_chars:
  assumes "lead_in U b pre" "c = 34 \<or> c = 39 \<or> c = 40 \<or> c = 41 \<or> c = 46 \<or> c = 61 \<or> c = 63"
  shows "c \<notin> set pre"
  using assms(1)
proof (cases rule: lead_in_cases)
  case (bound ident)
  have "\<not> word_char U c" using assms(2) not_word_char [of U] by auto
  then have "c \<notin> set ident" using bound(2) bare_identifier_not_word by blast
  then show ?thesis using bound(3) assms(2) by auto
next
  case discarded
  then show ?thesis using assms(2) by auto
qed

lemma lead_in_no_marker:
  assumes "lead_in U b pre" "prefix [32, 61] l"
  shows "\<not> starts_in l pre z"
  using assms(1)
proof (cases rule: lead_in_cases)
  case (bound ident)
  obtain l' where l: "l = 32 # 61 # l'" using assms(2) by (auto simp: prefix_def)
  obtain i0 i' where i: "ident = i0 # i'" "word_char U i0"
    using bound(2) by (cases ident) (auto simp: bare_identifier_def)
  have "i0 \<noteq> 61" using i(2) not_word_char(8) [of U] by auto
  then have a: "\<not> starts_in l (ustr ''const '') (ident @ z)"
    by (simp add: starts_in_Cons l i(1))
  have "32 \<notin> set ident" using bound(2) bare_identifier_not_word not_word_char(2) by blast
  then have b: "\<not> starts_in l ident z"
    using starts_in_head [of l ident z] l by simp
  show ?thesis
    unfolding bound(3) starts_in_append using a b by simp
next
  case discarded
  obtain l' where l: "l = 32 # 61 # l'" using assms(2) by (auto simp: prefix_def)
  show ?thesis unfolding discarded(2) by (simp add: starts_in_Cons l)
qed

lemma bound_form_occurrence: "bound_form ident key = occurrence (ustr ''const '' @ ident) key"
  by (simp add: bound_form_def occurrence_def)

lemma bound_form_rewritten_eq:
  "bound_form_rewritten ident key = rewritten (ustr ''const '' @ ident) key"
  by (simp add: bound_form_rewritten_def rewritten_def)

lemma discarded_form_occurrence: "discarded_form key = occurrence (ustr ''_'') key"
  by (simp add: discarded_form_def occurrence_def)

lemma discarded_form_rewritten_eq: "discarded_form_rewritten key = rewritten (ustr ''_'') key"
  by (simp add: discarded_form_rewritten_def rewritten_def)

lemma pat_sound:
  assumes "rmatch (pat U b) s Map.empty = (s', g) # ms"
  shows "\<exists>pre k. lead_in U b pre \<and> key_shape U k \<and> s = occurrence pre k @ s'
           \<and> expand (tpl b) g = rewritten pre k \<and> g (key_group b) = Some k"
proof (cases b)
  case True
  then obtain ident key where "bare_identifier U ident" "key_shape U key"
      "s = bound_form ident key @ s'" "g = [1 \<mapsto> ident, 2 \<mapsto> key]"
    using pattern1_match_sound [of U s s' g ms] assms by (auto simp: pat_def)
  then have "lead_in U b (ustr ''const '' @ ident) \<and> key_shape U key
      \<and> s = occurrence (ustr ''const '' @ ident) key @ s'
      \<and> expand (tpl b) g = rewritten (ustr ''const '' @ ident) key \<and> g (key_group b) = Some key"
    using True
    by (auto simp: lead_in_def tpl_def key_group_def template1_def rewritten_def
        bound_form_occurrence)
  then show ?thesis by blast
next
  case False
  then obtain key where "key_shape U key" "s = discarded_form key @ s'" "g = [1 \<mapsto> key]"
    using pattern2_match_sound [of U s s' g ms] assms by (auto simp: pat_def)
  then have "lead_in U b (ustr ''_'') \<and> key_shape U key
      \<and> s = occurrence (ustr ''_'') key @ s'
      \<and> expand (tpl b) g = rewritten (ustr ''_'') key \<and> g (key_group b) = Some key"
    using False
    by (auto simp: lead_in_def tpl_def key_group_def template2_def rewritten_def
        discarded_form_occurrence)
  then show ?thesis by blast
qed

lemma pat_complete:
  assumes "lead_in U b pre" "key_shape U k"
  shows "\<exists>g ms. rmatch (pat U b) (occurrence pre k @ z) Map.empty = (z, g) # ms
           \<and> expand (tpl b) g = rewritten pre k \<and> g (key_group b) = Some k"
  using assms(1)
proof (cases rule: lead_in_cases)
  case (bound ident)
  obtain ms where "rmatch (pattern1 U) (bound_form ident k @ z) Map.empty
      = (z, [1 \<mapsto> ident, 2 \<mapsto> k]) # ms"
    using pattern1_match_complete [OF bound(2) assms(2)] by blast
  then have "rmatch (pat U b) (occurrence pre k @ z) Map.empty = (z, [1 \<mapsto> ident, 2 \<mapsto> k]) # ms
      \<and> expand (tpl b) [1 \<mapsto> ident, 2 \<mapsto> k] = rewritten pre k
      \<and> [1 \<mapsto> ident, 2 \<mapsto> k] (key_group b) = Some k"
    using bound(1,3)
    by (simp add: pat_def tpl_def key_group_def template1_def rewritten_def
        bound_form_occurrence)
  then show ?thesis by blast
next
  case discarded
  obtain ms where "rmatch (pattern2 U) (discarded_form k @ z) Map.empty = (z, [1 \<mapsto> k]) # ms"
    using pattern2_match_complete [OF assms(2)] by blast
  then have "rmatch (pat U b) (occurrence pre k @ z) Map.empty = (z, [1 \<mapsto> k]) # ms
      \<and> expand (tpl b) [1 \<mapsto> k] = rewritten pre k \<and> [1 \<mapsto> k] (key_group b) = Some k"
    using discarded
    by (simp add: pat_def tpl_def key_group_def template2_def rewritten_def
        discarded_form_occurrence)
  then show ?thesis by blast
qed

lemma pat_shorter:
  "rmatch (pat U b) s Map.empty = (s', g) # ms \<Longrightarrow> length s' < length s"
  by (drule pat_sound) (auto simp: occurrence_def)

lemma pat_no_match_Nil: "rmatch (pat U b) [] Map.empty = []"
  using pat_shorter [of U b "[]"] by (cases "rmatch (pat U b) [] Map.empty") auto

lemma pass_Nil: "pass U b [] = []"
  unfolding pass_def by (rule re_sub_empty_text) (rule pat_shorter)

lemma pass_copy:
  "rmatch (pat U b) (c # cs) Map.empty = [] \<Longrightarrow> pass U b (c # cs) = c # pass U b cs"
  unfolding pass_def by (rule re_sub_copy)

lemma pass_replace:
  assumes "lead_in U b pre" "key_shape U k"
  shows "pass U b (occurrence pre k @ r) = rewritten pre k @ pass U b r"
proof -
  obtain g ms where m: "rmatch (pat U b) (occurrence pre k @ r) Map.empty = (r, g) # ms"
      "expand (tpl b) g = rewritten pre k"
    using pat_complete [OF assms] by blast
  show ?thesis
    unfolding pass_def
    using re_sub_replace [OF m(1) pat_shorter [OF m(1)], of "tpl b"] m(2) by simp
qed

lemma captured_pat_replace:
  assumes "lead_in U b pre" "key_shape U k"
  shows "captured (pat U b) (key_group b) (occurrence pre k @ r)
           = k # captured (pat U b) (key_group b) r"
proof -
  obtain g ms where m: "rmatch (pat U b) (occurrence pre k @ r) Map.empty = (r, g) # ms"
      "g (key_group b) = Some k"
    using pat_complete [OF assms] by blast
  show ?thesis
    using captured_replace [OF m(1) pat_shorter [OF m(1)] m(2)] .
qed

lemma pass_induct [case_names Nil copy replace]:
  assumes "Q []"
    and "\<And>c cs. rmatch (pat U b) (c # cs) Map.empty = [] \<Longrightarrow> Q cs \<Longrightarrow> Q (c # cs)"
    and "\<And>pre k r. lead_in U b pre \<Longrightarrow> key_shape U k \<Longrightarrow> Q r \<Longrightarrow> Q (occurrence pre k @ r)"
  shows "Q s"
proof (rule re_sub_scan_induct [where r = "pat U b"])
  show "length s' < length s" if "rmatch (pat U b) s Map.empty = (s', g) # ms" for s s' g ms
    using that by (rule pat_shorter)
  show "Q []" by (rule assms(1))
  show "Q (c # cs)" if "rmatch (pat U b) (c # cs) Map.empty = []" "Q cs" for c cs
    using that by (rule assms(2))
  show "Q s" if "rmatch (pat U b) s Map.empty = (s', g) # ms" "Q s'" for s s' g ms
    using pat_sound [OF that(1)] that(2) assms(3) by blast
qed

section \<open>From the output of a substitution back to its input\<close>

lemma single_mark:
  assumes "y \<notin> set u" "y \<notin> set v" "u @ y # v = u' @ y # v'"
  shows "u = u' \<and> v = v'"
proof -
  from assms(3) consider w where "u = u' @ w" "w @ y # v = y # v'"
    | w where "u @ w = u'" "y # v = w @ y # v'"
    by (auto simp: append_eq_append_conv2)
  then show ?thesis
  proof cases
    case 1
    then show ?thesis using assms(1) by (cases w) auto
  next
    case 2
    then show ?thesis using assms(2) by (cases w) auto
  qed
qed

lemma first_mark:
  assumes "q \<notin> set u" "q \<notin> set u'" "u @ q # v = u' @ q # v'"
  shows "u = u' \<and> v = v'"
  using run_unique [of "\<lambda>c. c \<noteq> q" u u' q q v v'] assms by (auto simp: list_all_iff)

lemma first_mark_prefix:
  assumes "q \<notin> set x" "x @ y = t @ q # w"
  shows "\<exists>t1. t = x @ t1 \<and> y = t1 @ q # w"
proof -
  from assms(2) consider v where "x = t @ v" "v @ y = q # w"
    | v where "x @ v = t" "y = v @ q # w"
    by (auto simp: append_eq_append_conv2)
  then show ?thesis
  proof cases
    case 1
    then show ?thesis using assms(1) by (cases v) auto
  next
    case 2
    then show ?thesis by auto
  qed
qed

lemma no_unwrap_call:
  assumes "61 \<notin> set u" "61 \<notin> set v"
  shows "\<not> sublist (ustr '' = env.get('') (u @ 61 # 32 # 116 # v)"
proof
  assume "sublist (ustr '' = env.get('') (u @ 61 # 32 # 116 # v)"
  then obtain ps ss where "u @ 61 # 32 # 116 # v = ps @ ustr '' = env.get('' @ ss"
    by (auto simp: sublist_def)
  then have "u @ 61 # (32 # 116 # v) = (ps @ [32]) @ 61 # (ustr '' env.get('' @ ss)"
    by simp
  moreover have "61 \<notin> set (32 # 116 # v)" using assms(2) by simp
  ultimately have "32 # 116 # v = ustr '' env.get('' @ ss"
    using single_mark [OF assms(1)] by blast
  then show False by simp
qed

lemma pass_pull_back:
  assumes "\<And>pre. lead_in U b pre \<Longrightarrow> \<not> starts_in (pre @ ustr '' = env.get('') M w"
    and "pass U b u = M @ w"
  shows "\<exists>u'. u = M @ u' \<and> pass U b u' = w"
  using assms
proof (induction M arbitrary: u)
  case Nil
  then show ?case by simp
next
  case (Cons x M)
  show ?case
  proof (cases "rmatch (pat U b) u Map.empty")
    case Nil
    show ?thesis
    proof (cases u)
      case Nil
      then show ?thesis using Cons.prems(2) by (simp add: pass_Nil)
    next
      case (Cons c cs)
      then have "pass U b u = c # pass U b cs"
        using \<open>rmatch (pat U b) u Map.empty = []\<close> by (simp add: pass_copy)
      with Cons.prems(2) have c: "c = x" and rest: "pass U b cs = M @ w" by simp_all
      have "\<exists>u'. cs = M @ u' \<and> pass U b u' = w"
      proof (rule Cons.IH [OF _ rest])
        fix pre assume "lead_in U b pre"
        then show "\<not> starts_in (pre @ ustr '' = env.get('') M w"
          using Cons.prems(1) [of pre] by (simp add: starts_in_Cons)
      qed
      then show ?thesis using Cons c by auto
    qed
  next
    case (Cons m ms)
    obtain s' g where m: "m = (s', g)" by (cases m)
    obtain pre k where pk: "lead_in U b pre" "key_shape U k" "u = occurrence pre k @ s'"
      using pat_sound [of U b u s' g ms] Cons m by auto
    have "pass U b u = rewritten pre k @ pass U b s'"
      unfolding pk(3) by (rule pass_replace [OF pk(1,2)])
    then have "prefix (pre @ ustr '' = env.get('') ((x # M) @ w)"
      using Cons.prems(2) by (auto simp: rewritten_def prefix_def)
    then have "starts_in (pre @ ustr '' = env.get('') (x # M) w"
      by (simp add: starts_in_Cons)
    then show ?thesis using Cons.prems(1) [OF pk(1)] by simp
  qed
qed

lemma pass_first_paren:
  assumes "pass U b u = 41 # w"
  shows "\<exists>u'. u = 41 # u'"
proof -
  have "\<not> starts_in (pre @ ustr '' = env.get('') [41] w" if "lead_in U b pre" for pre
  proof -
    have "pre \<noteq> []" "41 \<notin> set pre"
      using that lead_in_nonempty lead_in_chars by blast+
    then have "hd pre \<noteq> 41" by (cases pre) auto
    then show ?thesis using \<open>pre \<noteq> []\<close> by (cases pre) (auto simp: starts_in_Cons)
  qed
  then show ?thesis using pass_pull_back [of U b "[41]" w u] assms by auto
qed

lemma quote_not_in_occurrence:
  assumes "lead_in U b pre" "q = 34 \<or> q = 39" "q \<notin> set k"
  shows "q \<notin> set (occurrence pre k)" "q \<notin> set (rewritten pre k)"
proof -
  have "q \<notin> set pre" using lead_in_chars [OF assms(1), of q] assms(2) by blast
  then show "q \<notin> set (occurrence pre k)" "q \<notin> set (rewritten pre k)"
    using assms(2,3) by (auto simp: occurrence_def rewritten_def)
qed

lemma pass_quote_run:
  assumes q: "q = 34 \<or> q = 39"
  shows "pass U b u = t @ q # 41 # w \<Longrightarrow> q \<notin> set t \<Longrightarrow>
    \<exists>t0 u'. u = t0 @ q # 41 # u' \<and> q \<notin> set t0 \<and> (t \<noteq> [] \<longrightarrow> t0 \<noteq> [])"
proof (induction u arbitrary: t rule: pass_induct [where U = U and b = b])
  case Nil
  then show ?case by (simp add: pass_Nil)
next
  case (copy c cs)
  have eq: "c # pass U b cs = t @ q # 41 # w"
    using copy.prems(1) copy.hyps by (simp add: pass_copy)
  show ?case
  proof (cases t)
    case Nil
    with eq have c: "c = q" and "pass U b cs = 41 # w" by simp_all
    then obtain u' where "cs = 41 # u'" using pass_first_paren by blast
    then have "c # cs = [] @ q # 41 # u' \<and> q \<notin> set [] \<and> (t \<noteq> [] \<longrightarrow> [] \<noteq> ([] :: utext))"
      using c Nil by simp
    then show ?thesis by (intro exI)
  next
    case (Cons c' t1)
    with eq have c: "c = c'" and rest: "pass U b cs = t1 @ q # 41 # w" by simp_all
    have "q \<notin> set t1" "c \<noteq> q" using copy.prems(2) Cons c by auto
    then obtain t0 u' where "cs = t0 @ q # 41 # u'" "q \<notin> set t0"
      using copy.IH [OF rest] by blast
    then have "c # cs = (c # t0) @ q # 41 # u'" "q \<notin> set (c # t0)" "c # t0 \<noteq> []"
      using \<open>c \<noteq> q\<close> by simp_all
    then show ?thesis by blast
  qed
next
  case (replace pre k r)
  have eq: "rewritten pre k @ pass U b r = t @ q # 41 # w"
    using replace.prems(1) pass_replace [OF replace.hyps] by simp
  have qpre: "q \<notin> set pre" using lead_in_chars [OF replace.hyps(1), of q] q by blast
  have ne: "pre \<noteq> []" using replace.hyps(1) by (rule lead_in_nonempty)
  show ?case
  proof (cases "q \<in> set k")
    case True
    then obtain k1 k2 where k: "k = k1 @ q # k2" "q \<notin> set k1"
      by (meson split_list_first)
    have "(pre @ ustr '' = env.get('' @ k1) @ q # (k2 @ ustr '').?'' @ pass U b r)
        = t @ q # 41 # w"
      using eq by (simp add: rewritten_def k(1))
    moreover have "q \<notin> set (pre @ ustr '' = env.get('' @ k1)"
      using qpre k(2) q by auto
    ultimately have "k2 @ ustr '').?'' @ pass U b r = 41 # w"
      using first_mark [OF _ replace.prems(2)] by blast
    then obtain u' where u': "k2 @ 41 # r = 41 # u'"
      by (cases k2) auto
    have "occurrence pre k @ r = (pre @ ustr '' = try env.get('' @ k1) @ q # 41 # u'"
      using u' by (simp add: occurrence_def k(1))
    moreover have "q \<notin> set (pre @ ustr '' = try env.get('' @ k1)"
      using qpre k(2) q by auto
    moreover have "pre @ ustr '' = try env.get('' @ k1 \<noteq> []" using ne by simp
    ultimately show ?thesis by blast
  next
    case False
    have "q \<notin> set (rewritten pre k)" "q \<notin> set (occurrence pre k)"
      using quote_not_in_occurrence [OF replace.hyps(1) q False] by simp_all
    then obtain t1 where t1: "t = rewritten pre k @ t1" "pass U b r = t1 @ q # 41 # w"
      using first_mark_prefix [OF _ eq] by blast
    have "q \<notin> set t1" using replace.prems(2) t1(1) by simp
    then obtain t0 u' where "r = t0 @ q # 41 # u'" "q \<notin> set t0"
      using replace.IH [OF t1(2)] by blast
    then have "occurrence pre k @ r = (occurrence pre k @ t0) @ q # 41 # u'"
        "q \<notin> set (occurrence pre k @ t0)" "occurrence pre k @ t0 \<noteq> []"
      using \<open>q \<notin> set (occurrence pre k)\<close> ne by (simp_all add: occurrence_def)
    then show ?thesis by blast
  qed
qed

lemma unwrap_call_not_in_lead:
  assumes "lead_in U a (c # pA)" "61 \<notin> set v"
  shows "\<not> sublist (ustr '' = env.get('') (pA @ ustr '' = try env.get('' @ v)"
proof -
  have "61 \<notin> set (c # pA)" using lead_in_chars [OF assms(1), of 61] by simp
  then have "61 \<notin> set (pA @ [32])" by simp
  moreover have "61 \<notin> set (ustr ''ry env.get('' @ v)" using assms(2) by simp
  ultimately have "\<not> sublist (ustr '' = env.get('')
      ((pA @ [32]) @ 61 # 32 # 116 # (ustr ''ry env.get('' @ v))"
    by (rule no_unwrap_call)
  then show ?thesis by simp
qed

lemma no_rewrite_starts_in:
  assumes "lead_in U b pre" "\<not> sublist (ustr '' = env.get('') M" "M \<noteq> []"
    and "last M = 34 \<or> last M = 39 \<or> last M = 41"
  shows "\<not> starts_in (pre @ ustr '' = env.get('') M w"
proof (rule starts_in_last)
  have "sublist (ustr '' = env.get('') (pre @ ustr '' = env.get('')"
    by (intro suffix_imp_sublist suffixI) (rule refl)
  then show "\<not> sublist (pre @ ustr '' = env.get('') M"
    using assms(2) sublist_order.order_trans by blast
  show "M \<noteq> []" by (rule assms(3))
  have "last M \<notin> set pre" using lead_in_chars [OF assms(1), of "last M"] assms(4) by blast
  then show "last M \<notin> set (pre @ ustr '' = env.get('')" using assms(4) by auto
qed

lemma head_stays_unmatched:
  assumes nA: "rmatch (pat U a) (c # cs) Map.empty = []"
  shows "rmatch (pat U a) (c # pass U b cs) Map.empty = []"
proof (cases "rmatch (pat U a) (c # pass U b cs) Map.empty")
  case Nil
  then show ?thesis .
next
  case (Cons m ms)
  obtain z g where m: "m = (z, g)" by (cases m)
  obtain preA k where pk: "lead_in U a preA" "key_shape U k"
      "c # pass U b cs = occurrence preA k @ z"
    using pat_sound [of U a "c # pass U b cs" z g ms] Cons m by auto
  obtain pA where pA: "preA = c # pA"
    using pk(3) lead_in_nonempty [OF pk(1)] by (cases preA) (auto simp: occurrence_def)
  have out: "pass U b cs = pA @ ustr '' = try env.get('' @ k @ 41 # z"
    using pk(3) pA by (simp add: occurrence_def)
  have matched: False if "key_shape U k0" "c # cs = occurrence preA k0 @ u'" for k0 u'
    using pat_complete [OF pk(1) that(1), of u'] nA that(2) by auto
  consider "quoted 34 k" | "quoted 39 k" | "bare_identifier U k"
    using pk(2) by (auto simp: key_shape_def)
  then have "\<exists>k0 u'. key_shape U k0 \<and> c # cs = occurrence preA k0 @ u'"
  proof cases
    case 3
    define M where "M = pA @ ustr '' = try env.get('' @ k @ [41]"
    have "61 \<notin> set (k @ [41])"
      using bare_identifier_not_word [OF 3 not_word_char(8)] by simp
    then have "\<not> sublist (ustr '' = env.get('') M"
      unfolding M_def using unwrap_call_not_in_lead [OF pk(1) [unfolded pA]] by blast
    moreover have "M \<noteq> []" "last M = 41" by (simp_all add: M_def)
    ultimately have "\<not> starts_in (pre @ ustr '' = env.get('') M z" if "lead_in U b pre" for pre
      using no_rewrite_starts_in [OF that] by blast
    moreover have "pass U b cs = M @ z" using out by (simp add: M_def)
    ultimately obtain u' where "cs = M @ u'"
      using pass_pull_back [of U b M z cs] by blast
    then have "c # cs = occurrence preA k @ u'"
      by (simp add: M_def pA occurrence_def)
    with pk(2) show ?thesis by blast
  next
    case 1
    show ?thesis
    proof -
      obtain t where t: "t \<noteq> []" "34 \<notin> set t" "k = 34 # t @ [34]"
        using 1 by (auto simp: quoted_iff)
      define M where "M = pA @ ustr '' = try env.get('' @ [34]"
      have "\<not> sublist (ustr '' = env.get('') M"
        unfolding M_def using unwrap_call_not_in_lead [OF pk(1) [unfolded pA], of "[34]"] by simp
      moreover have "M \<noteq> []" "last M = 34" by (simp_all add: M_def)
      ultimately have "\<not> starts_in (pre @ ustr '' = env.get('') M (t @ 34 # 41 # z)"
        if "lead_in U b pre" for pre
        using no_rewrite_starts_in [OF that] by blast
      moreover have "pass U b cs = M @ (t @ 34 # 41 # z)" using out t(3) by (simp add: M_def)
      ultimately obtain u' where u': "cs = M @ u'" "pass U b u' = t @ 34 # 41 # z"
        using pass_pull_back [of U b M "t @ 34 # 41 # z" cs] by blast
      obtain t0 u'' where t0: "u' = t0 @ 34 # 41 # u''" "34 \<notin> set t0" "t0 \<noteq> []"
        using pass_quote_run [OF _ u'(2) t(2)] t(1) by blast
      have "quoted 34 (34 # t0 @ [34])" using t0(2,3) by (auto simp: quoted_iff)
      then have "key_shape U (34 # t0 @ [34])" by (simp add: key_shape_def)
      moreover have "c # cs = occurrence preA (34 # t0 @ [34]) @ u''"
        using u'(1) t0(1) by (simp add: M_def pA occurrence_def)
      ultimately show ?thesis by blast
    qed
  next
    case 2
    show ?thesis
    proof -
      obtain t where t: "t \<noteq> []" "39 \<notin> set t" "k = 39 # t @ [39]"
        using 2 by (auto simp: quoted_iff)
      define M where "M = pA @ ustr '' = try env.get('' @ [39]"
      have "\<not> sublist (ustr '' = env.get('') M"
        unfolding M_def using unwrap_call_not_in_lead [OF pk(1) [unfolded pA], of "[39]"] by simp
      moreover have "M \<noteq> []" "last M = 39" by (simp_all add: M_def)
      ultimately have "\<not> starts_in (pre @ ustr '' = env.get('') M (t @ 39 # 41 # z)"
        if "lead_in U b pre" for pre
        using no_rewrite_starts_in [OF that] by blast
      moreover have "pass U b cs = M @ (t @ 39 # 41 # z)" using out t(3) by (simp add: M_def)
      ultimately obtain u' where u': "cs = M @ u'" "pass U b u' = t @ 39 # 41 # z"
        using pass_pull_back [of U b M "t @ 39 # 41 # z" cs] by blast
      obtain t0 u'' where t0: "u' = t0 @ 39 # 41 # u''" "39 \<notin> set t0" "t0 \<noteq> []"
        using pass_quote_run [OF _ u'(2) t(2)] t(1) by blast
      have "quoted 39 (39 # t0 @ [39])" using t0(2,3) by (auto simp: quoted_iff)
      then have "key_shape U (39 # t0 @ [39])" by (simp add: key_shape_def)
      moreover have "c # cs = occurrence preA (39 # t0 @ [39]) @ u''"
        using u'(1) t0(1) by (simp add: M_def pA occurrence_def)
      ultimately show ?thesis by blast
    qed
  qed
  then show ?thesis using matched by blast
qed

lemma rewritten_no_marker:
  assumes "lead_in U b pre" "\<not> sublist (ustr '' = try env.get('') k"
  shows "\<not> sublist (ustr '' = try env.get('') (rewritten pre k)"
proof -
  have 1: "\<not> starts_in (ustr '' = try env.get('') pre
      (ustr '' = env.get('' @ k @ ustr '').?'' @ [])"
    by (rule lead_in_no_marker [OF assms(1)]) simp
  have 2: "\<not> starts_in (ustr '' = try env.get('') (ustr '' = env.get('')
      (k @ ustr '').?'' @ [])"
    by (simp add: starts_in_Cons)
  have 3: "\<not> starts_in (ustr '' = try env.get('') k (ustr '').?'' @ [])"
    by (rule starts_in_free [OF assms(2)]) simp
  have 4: "\<not> starts_in (ustr '' = try env.get('') (ustr '').?'') []"
    by (simp add: starts_in_Cons)
  have "\<not> starts_in (ustr '' = try env.get('')
      (pre @ ustr '' = env.get('' @ k @ ustr '').?'') []"
    unfolding starts_in_append using 1 2 3 4 by simp
  then show ?thesis
    using sublist_iff_starts_in [of "ustr '' = try env.get(''" "rewritten pre k"]
    by (simp add: rewritten_def)
qed

lemma no_match_inside_rewritten:
  assumes "lead_in U b pre" "\<not> sublist (ustr '' = try env.get('') k"
    and "x \<noteq> []" "suffix x (rewritten pre k)"
  shows "rmatch (pat U a) (x @ z) Map.empty = []"
proof (cases "rmatch (pat U a) (x @ z) Map.empty")
  case Nil
  then show ?thesis .
next
  case (Cons m ms)
  obtain z' g where m: "m = (z', g)" by (cases m)
  obtain preA k' where pk: "lead_in U a preA" "x @ z = occurrence preA k' @ z'"
    using pat_sound [of U a "x @ z" z' g ms] Cons m by auto
  define L where "L = preA @ ustr '' = try env.get(''"
  have pL: "prefix L (x @ z)" using pk(2) by (simp add: L_def occurrence_def prefix_def)
  have False
  proof (cases "length L \<le> length x")
    case True
    then have "prefix L x" using pL prefix_length_prefix [of L "x @ z" x] by simp
    then have "sublist L (rewritten pre k)"
      using assms(4) by (auto simp: prefix_def suffix_def sublist_def)
    moreover have "sublist (ustr '' = try env.get('') L"
      unfolding L_def by (intro suffix_imp_sublist suffixI) (rule refl)
    ultimately have "sublist (ustr '' = try env.get('') (rewritten pre k)"
      using sublist_order.order_trans by blast
    then show False using rewritten_no_marker [OF assms(1,2)] by simp
  next
    case False
    then have "prefix x L" using pL prefix_length_prefix [of x "x @ z" L] by simp
    then have "last x \<in> set L" using assms(3) by (auto simp: prefix_def)
    moreover have "last x = 63"
    proof -
      obtain zs where "rewritten pre k = zs @ x" using assms(4) by (auto simp: suffix_def)
      then have "last (rewritten pre k) = last x" using assms(3) by simp
      then show ?thesis by (simp add: rewritten_def)
    qed
    moreover have "63 \<notin> set preA" using lead_in_chars [OF pk(1), of 63] by simp
    ultimately show False by (simp add: L_def)
  qed
  then show ?thesis ..
qed

lemma pass_output_unmatched:
  "list_all (\<lambda>k. \<not> sublist (ustr '' = try env.get('') k) (captured (pat U b) (key_group b) s) \<Longrightarrow>
   (\<And>x. suffix x s \<Longrightarrow> rmatch (pat U b) x Map.empty = [] \<Longrightarrow> rmatch (pat U a) x Map.empty = []) \<Longrightarrow>
   \<not> matches_anywhere (pat U a) (pass U b s)"
proof (induction s rule: pass_induct [where U = U and b = b])
  case Nil
  show ?case by (simp add: pass_Nil pat_no_match_Nil)
next
  case (copy c cs)
  have "rmatch (pat U a) (c # cs) Map.empty = []"
    using copy.prems(2) [of "c # cs"] copy.hyps by simp
  then have head: "rmatch (pat U a) (c # pass U b cs) Map.empty = []"
    by (rule head_stays_unmatched)
  have "\<not> matches_anywhere (pat U a) (pass U b cs)"
  proof (rule copy.IH)
    show "list_all (\<lambda>k. \<not> sublist (ustr '' = try env.get('') k)
        (captured (pat U b) (key_group b) cs)"
      using copy.prems(1) copy.hyps by (simp add: captured_copy)
    show "rmatch (pat U a) x Map.empty = []"
      if "suffix x cs" "rmatch (pat U b) x Map.empty = []" for x
      using copy.prems(2) [of x] that by (simp add: suffix_Cons)
  qed
  with head show ?case using copy.hyps by (simp add: pass_copy)
next
  case (replace pre k r)
  have keys: "\<not> sublist (ustr '' = try env.get('') k"
      "list_all (\<lambda>k. \<not> sublist (ustr '' = try env.get('') k)
        (captured (pat U b) (key_group b) r)"
    using replace.prems(1) captured_pat_replace [OF replace.hyps, of r] by simp_all
  have tail: "\<not> matches_anywhere (pat U a) (pass U b r)"
  proof (rule replace.IH [OF keys(2)])
    show "rmatch (pat U a) x Map.empty = []"
      if "suffix x r" "rmatch (pat U b) x Map.empty = []" for x
      using replace.prems(2) [of x] that by (simp add: suffix_append)
  qed
  have "rmatch (pat U a) (x @ pass U b r) Map.empty = []"
    if "x \<noteq> []" "suffix x (rewritten pre k)" for x
    using no_match_inside_rewritten [OF replace.hyps(1) keys(1) that] .
  then have "\<not> matches_anywhere (pat U a) (rewritten pre k @ pass U b r)"
    unfolding matches_anywhere_append using tail by blast
  then show ?case by (simp add: pass_replace [OF replace.hyps])
qed

lemma fix_env_get_calls_output_unmatched:
  assumes "list_all (\<lambda>k. \<not> sublist (ustr '' = try env.get('') k) (captured (pattern1 U) 2 s)"
    and "list_all (\<lambda>k. \<not> sublist (ustr '' = try env.get('') k)
           (captured (pattern2 U) 1 (re_sub (pattern1 U) template1 s))"
  shows "\<not> matches_anywhere (pattern1 U) (fix_env_get_calls U s)"
    and "\<not> matches_anywhere (pattern2 U) (fix_env_get_calls U s)"
proof -
  have f: "fix_env_get_calls U s = pass U False (pass U True s)"
    by (simp add: fix_env_get_calls_def pass_def pat_def tpl_def)
  have k1: "list_all (\<lambda>k. \<not> sublist (ustr '' = try env.get('') k)
      (captured (pat U True) (key_group True) s)"
    using assms(1) by (simp add: pat_def key_group_def)
  have k2: "list_all (\<lambda>k. \<not> sublist (ustr '' = try env.get('') k)
      (captured (pat U False) (key_group False) (pass U True s))"
    using assms(2) by (simp add: pat_def key_group_def pass_def tpl_def)
  have a: "\<not> matches_anywhere (pat U True) (pass U True s)"
    using pass_output_unmatched [OF k1, of True] by blast
  have "\<not> matches_anywhere (pat U True) (pass U False (pass U True s))"
  proof (rule pass_output_unmatched [OF k2])
    show "rmatch (pat U True) x Map.empty = []" if "suffix x (pass U True s)" for x
      using a matches_anywhere_suffix [OF that] by blast
  qed
  then show "\<not> matches_anywhere (pattern1 U) (fix_env_get_calls U s)"
    by (simp add: f pat_def)
  have "\<not> matches_anywhere (pat U False) (pass U False (pass U True s))"
    using pass_output_unmatched [OF k2, of False] by blast
  then show "\<not> matches_anywhere (pattern2 U) (fix_env_get_calls U s)"
    by (simp add: f pat_def)
qed

section \<open>The text before an occurrence\<close>

text \<open>
  A match that starts in a text \<open>a\<close> can end after \<open>a\<close> only through a quoted key that
  \<open>a\<close> leaves open, or through an identifier or a bare key that runs on into the text
  that follows. When \<open>a\<close> leaves no key open and the text that follows begins as
  \<open>junction\<close> says, each substitution treats the two texts on their own
  (\<open>pass_split\<close>), and the first substitution leaves no key open that was closed
  (\<open>keys_closed_pass\<close>).
\<close>

lemma prefix_then_rest:
  "(prefix (l @ [q]) s \<and> q \<notin> set (drop (Suc (length l)) s))
     \<longleftrightarrow> (\<exists>t. s = l @ q # t \<and> q \<notin> set t)"
proof
  assume a: "prefix (l @ [q]) s \<and> q \<notin> set (drop (Suc (length l)) s)"
  then obtain t where "s = (l @ [q]) @ t" unfolding prefix_def by blast
  then have s: "s = l @ q # t" by simp
  then have "drop (Suc (length l)) s = t" by simp
  with a s show "\<exists>t. s = l @ q # t \<and> q \<notin> set t" by metis
next
  assume "\<exists>t. s = l @ q # t \<and> q \<notin> set t"
  then obtain t where s: "s = l @ q # t" and t: "q \<notin> set t" by blast
  have "drop (Suc (length l)) s = t" using s by simp
  moreover have "prefix (l @ [q]) s" unfolding prefix_def using s by simp
  ultimately show "prefix (l @ [q]) s \<and> q \<notin> set (drop (Suc (length l)) s)" using t by simp
qed

lemma opens_unclosed_key_iff:
  "opens_unclosed_key s \<longleftrightarrow>
     (\<exists>q t. (q = 34 \<or> q = 39) \<and> s = ustr '' = try env.get('' @ q # t \<and> q \<notin> set t)"
proof -
  have l: "Suc (length (ustr '' = try env.get('')) = 16" by simp
  have "opens_unclosed_key s \<longleftrightarrow>
     (\<exists>t. s = ustr '' = try env.get('' @ 34 # t \<and> 34 \<notin> set t)
     \<or> (\<exists>t. s = ustr '' = try env.get('' @ 39 # t \<and> 39 \<notin> set t)"
    unfolding opens_unclosed_key_def
    using prefix_then_rest [of "ustr '' = try env.get(''" 34 s]
      prefix_then_rest [of "ustr '' = try env.get(''" 39 s]
    unfolding l by blast
  also have "\<dots> \<longleftrightarrow> (\<exists>q t. (q = 34 \<or> q = 39) \<and> s = ustr '' = try env.get('' @ q # t \<and> q \<notin> set t)"
    by blast
  finally show ?thesis .
qed


lemma keys_closed_append:
  "keys_closed (x @ y) \<longleftrightarrow>
     (\<forall>x'. x' \<noteq> [] \<and> suffix x' x \<longrightarrow> \<not> opens_unclosed_key (x' @ y)) \<and> keys_closed y"
proof (induction x)
  case Nil
  show ?case by simp
next
  case (Cons c x)
  have "(\<forall>x'. x' \<noteq> [] \<and> suffix x' (c # x) \<longrightarrow> \<not> opens_unclosed_key (x' @ y))
      \<longleftrightarrow> (\<forall>x'. x' \<noteq> [] \<and> (x' = c # x \<or> suffix x' x) \<longrightarrow> \<not> opens_unclosed_key (x' @ y))"
    by (simp only: suffix_Cons)
  also have "\<dots> \<longleftrightarrow> \<not> opens_unclosed_key ((c # x) @ y)
      \<and> (\<forall>x'. x' \<noteq> [] \<and> suffix x' x \<longrightarrow> \<not> opens_unclosed_key (x' @ y))"
    by blast
  finally have e: "(\<forall>x'. x' \<noteq> [] \<and> suffix x' (c # x) \<longrightarrow> \<not> opens_unclosed_key (x' @ y))
      \<longleftrightarrow> \<not> opens_unclosed_key ((c # x) @ y)
      \<and> (\<forall>x'. x' \<noteq> [] \<and> suffix x' x \<longrightarrow> \<not> opens_unclosed_key (x' @ y))" .
  have "keys_closed ((c # x) @ y) \<longleftrightarrow> \<not> opens_unclosed_key ((c # x) @ y) \<and> keys_closed (x @ y)"
    by simp
  then show ?case unfolding e Cons.IH by blast
qed

lemma keys_closed_suffix: "suffix x a \<Longrightarrow> keys_closed a \<Longrightarrow> keys_closed x"
  unfolding suffix_def using keys_closed_append by blast

lemma keys_closed_open_quote:
  assumes "keys_closed a" "a = u @ ustr '' = try env.get('' @ q # t" "q = 34 \<or> q = 39"
  shows "q \<in> set t"
proof (rule ccontr)
  assume "q \<notin> set t"
  then have "opens_unclosed_key (ustr '' = try env.get('' @ q # t)"
    using assms(3) opens_unclosed_key_iff by blast
  moreover have "suffix (ustr '' = try env.get('' @ q # t) a"
    unfolding assms(2) by (rule suffixI) (rule refl)
  then have "keys_closed (ustr '' = try env.get('' @ q # t)"
    using assms(1) keys_closed_suffix by blast
  then have "\<not> opens_unclosed_key (ustr '' = try env.get('' @ q # t)"
    by simp
  ultimately show False by simp
qed

lemma split_cases:
  assumes "x @ v = l @ m" "v \<noteq> []"
  obtains (left) w where "x @ w = l" "v = w @ m" "w \<noteq> []"
    | (right) w where "x = l @ w" "w @ v = m"
proof -
  from assms(1) consider w where "x = l @ w" "w @ v = m" | w where "x @ w = l" "v = w @ m"
    by (auto simp: append_eq_append_conv2)
  then show thesis
  proof cases
    case 1
    then show ?thesis by (rule right)
  next
    case 2
    show ?thesis
    proof (cases "w = []")
      case True
      then have "x = l @ []" "[] @ v = m" using 2 by simp_all
      then show ?thesis by (rule right)
    next
      case False
      with 2 show ?thesis by (rule left)
    qed
  qed
qed

lemma hd_of_tail:
  assumes "x @ y = l" "y \<noteq> []"
  shows "hd y \<in> set l" "x \<noteq> [] \<Longrightarrow> hd y \<in> set (tl l)"
proof -
  show "hd y \<in> set l" using assms by auto
  show "hd y \<in> set (tl l)" if "x \<noteq> []"
    using that assms by (cases x) auto
qed

lemma dropWhile_run:
  "list_all P w \<Longrightarrow> \<not> P c \<Longrightarrow> dropWhile P (w @ c # r) = c # r"
  by (induction w) simp_all

lemma no_straddle:
  assumes kc: "keys_closed x" and x: "x \<noteq> []"
    and pre: "lead_in U b pre" and k: "key_shape U k"
    and eq: "x @ z = occurrence pre k @ z'"
    and z: "junction U z"
    and c3: "b \<Longrightarrow> no_binding U z \<or> \<not> const_tail U x"
  shows "\<exists>x0. x = occurrence pre k @ x0"
proof -
  from eq consider v where "x = occurrence pre k @ v"
    | v where "x @ v = occurrence pre k" "z = v @ z'"
    by (auto simp: append_eq_append_conv2)
  then show ?thesis
  proof cases
    case 1
    then show ?thesis by blast
  next
    case 2
    have zne: "z \<noteq> []" using z by (simp add: junction_def)
    show ?thesis
    proof (cases "v = []")
      case True
      then have "x = occurrence pre k @ []" using 2 by simp
      then show ?thesis by blast
    next
      case False
      have h: "hd z = hd v" using 2(2) False by simp
      have xv: "x @ v = pre @ (ustr '' = try env.get('' @ k @ [41])"
        using 2(1) by (simp add: occurrence_def)
      from xv False have False
      proof (cases rule: split_cases)
        case (left w)
        have hw: "hd z = hd w" using h left(2,3) by simp
        from pre show False
        proof (cases rule: lead_in_cases)
          case discarded
          then have "length (x @ w) = 1" using left(1) by simp
          then show False using x left(3) by (cases x; cases w) auto
        next
          case (bound ident)
          have "x @ w = ustr ''const '' @ ident" using left(1) bound(3) by simp
          from this left(3) show False
          proof (cases rule: split_cases)
            case (left y)
            then have "hd y \<in> set (tl (ustr ''const ''))"
              using hd_of_tail(2) [of x y "ustr ''const ''"] x by blast
            moreover have "hd w = hd y" using left(2,3) by simp
            ultimately show False using z hw by (auto simp: junction_def)
          next
            case (right y)
            have wd: "list_all (word_char U) w" "list_all (word_char U) y"
              using right(2) bound(2) by (auto simp: bare_identifier_def)
            have "z = w @ 32 # (ustr ''= try env.get('' @ k @ 41 # z')"
              using 2(2) \<open>v = w @ ustr '' = try env.get('' @ k @ [41]\<close> by simp
            then have "dropWhile (word_char U) z = 32 # (ustr ''= try env.get('' @ k @ 41 # z')"
              using dropWhile_run [OF wd(1) not_word_char(2) [of U]] by simp
            then have "\<not> no_binding U z" by (simp add: no_binding_def)
            moreover have "const_tail U x"
              unfolding const_tail_def using wd(2) right(1) by auto
            ultimately show False using c3 bound(1) by simp
          qed
        qed
      next
        case (right w)
        from right(2) False show False
        proof (cases rule: split_cases)
          case (left w2)
          then have "hd w2 \<in> set (ustr '' = try env.get('')"
            using hd_of_tail(1) [of w w2] by blast
          moreover have "hd v = hd w2" using left(2,3) by simp
          ultimately show False using z h by (auto simp: junction_def)
        next
          case (right w2)
          note xw = \<open>x = pre @ w\<close>
          from right(2) False show False
          proof (cases rule: split_cases)
            case (right w3)
            then have "v = [41]" using False by (cases w3) auto
            then show False using z h by (simp add: junction_def)
          next
            case (left w3)
            have hv: "hd z = hd w3" using h left(2,3) by simp
            from k consider q where "q = 34 \<or> q = 39" "quoted q k" | "bare_identifier U k"
              unfolding key_shape_def by blast
            then show False
            proof cases
              case 2
              then have wd: "list_all (word_char U) w3"
                using left(1) by (auto simp: bare_identifier_def)
              have "z = w3 @ 41 # z'" using \<open>z = v @ z'\<close> left(2) by simp
              then have "dropWhile (word_char U) z = 41 # z'"
                using dropWhile_run [OF wd not_word_char(6) [of U]] by simp
              then show False using z by (simp add: junction_def)
            next
              case 1
              then obtain t where t: "t \<noteq> []" "q \<notin> set t" "k = q # t @ [q]"
                using quoted_iff by blast
              show False
              proof (cases w2)
                case Nil
                then have "hd w3 = q" using left(1) t(3) by simp
                then show False using hv z 1(1) by (auto simp: junction_def)
              next
                case (Cons c t0)
                then have c: "c = q" and t0: "t0 @ w3 = t @ [q]" using left(1) t(3) by simp_all
                from t0 left(3) have "set t0 \<subseteq> set t"
                proof (cases rule: split_cases)
                  case (left u)
                  then show ?thesis by auto
                next
                  case (right u)
                  then have "u = []" using \<open>w3 \<noteq> []\<close> by (cases u) auto
                  then show ?thesis using right(1) by simp
                qed
                then have "q \<notin> set t0" using t(2) by auto
                moreover have "x = pre @ ustr '' = try env.get('' @ q # t0"
                  using xw \<open>w = ustr '' = try env.get('' @ w2\<close> Cons c by simp
                ultimately show False using keys_closed_open_quote [OF kc _ 1(1)] by blast
              qed
            qed
          qed
        qed
      qed
      then show ?thesis ..
    qed
  qed
qed

lemma const_tail_Cons: "const_tail U cs \<Longrightarrow> const_tail U (c # cs)"
  unfolding const_tail_def by (auto simp: suffix_Cons)

lemma const_tail_append: "const_tail U r \<Longrightarrow> const_tail U (x @ r)"
  by (induction x) (simp_all add: const_tail_Cons)

lemma pass_split:
  assumes "keys_closed a" "junction U z" "b \<Longrightarrow> no_binding U z \<or> \<not> const_tail U a"
  shows "pass U b (a @ z) = pass U b a @ pass U b z"
  using assms(1,3)
proof (induction a rule: pass_induct [where U = U and b = b])
  case Nil
  show ?case by (simp add: pass_Nil)
next
  case (copy c cs)
  have "rmatch (pat U b) ((c # cs) @ z) Map.empty = []"
  proof (cases "rmatch (pat U b) ((c # cs) @ z) Map.empty")
    case Nil
    then show ?thesis .
  next
    case (Cons m ms)
    obtain z' g where m: "m = (z', g)" by (cases m)
    obtain pre k where pk: "lead_in U b pre" "key_shape U k"
        "(c # cs) @ z = occurrence pre k @ z'"
      using pat_sound [of U b "(c # cs) @ z" z' g ms] Cons m by auto
    obtain x0 where "c # cs = occurrence pre k @ x0"
      using no_straddle [OF copy.prems(1) _ pk(1,2,3) assms(2) copy.prems(2)] by blast
    then have "rmatch (pat U b) (c # cs) Map.empty \<noteq> []"
      using pat_complete [OF pk(1,2), of x0] by auto
    then show ?thesis using copy.hyps by simp
  qed
  then have "pass U b ((c # cs) @ z) = c # pass U b (cs @ z)"
    by (simp add: pass_copy)
  moreover have "pass U b (cs @ z) = pass U b cs @ pass U b z"
  proof (rule copy.IH)
    show "keys_closed cs" using copy.prems(1) by simp
    show "no_binding U z \<or> \<not> const_tail U cs" if b
      using copy.prems(2) [OF that] const_tail_Cons by blast
  qed
  ultimately show ?case using copy.hyps by (simp add: pass_copy)
next
  case (replace pre k r)
  have "pass U b (r @ z) = pass U b r @ pass U b z"
  proof (rule replace.IH)
    show "keys_closed r"
      using replace.prems(1) keys_closed_append by blast
    show "no_binding U z \<or> \<not> const_tail U r" if b
      using replace.prems(2) [OF that] const_tail_append by blast
  qed
  then show ?case
    using pass_replace [OF replace.hyps(1,2), of "r @ z"] pass_replace [OF replace.hyps(1,2), of r]
    by simp
qed

lemma pass_keeps_quote:
  assumes "q = 34 \<or> q = 39"
  shows "q \<in> set u \<Longrightarrow> q \<in> set (pass U b u)"
proof (induction u rule: pass_induct [where U = U and b = b])
  case Nil
  then show ?case by simp
next
  case (copy c cs)
  then show ?case by (auto simp: pass_copy)
next
  case (replace pre k r)
  have "q \<in> set k \<or> q \<in> set r"
    using replace.prems quote_not_in_occurrence(1) [OF replace.hyps(1) assms, of k] by auto
  then have "q \<in> set (rewritten pre k) \<or> q \<in> set (pass U b r)"
    using replace.IH by (auto simp: rewritten_def)
  then show ?case using pass_replace [OF replace.hyps(1,2), of r] by auto
qed

lemma suffix_append_cases [consumes 1, case_names left right]:
  assumes "suffix x (a @ b)"
  obtains x' where "x = x' @ b" "suffix x' a" "x' \<noteq> []" | "suffix x b"
proof -
  from assms consider "suffix x b" | x' where "x = x' @ b" "suffix x' a"
    unfolding suffix_append by blast
  then show thesis
  proof cases
    case 1
    then show ?thesis by (rule that(2))
  next
    case 2
    show ?thesis
    proof (cases "x' = []")
      case True
      then have "suffix x b" using 2(1) by simp
      then show ?thesis by (rule that(2))
    next
      case False
      with 2 show ?thesis by (rule that(1))
    qed
  qed
qed

lemma pass_keeps_open_key:
  assumes q: "q = 34 \<or> q = 39"
    and e: "c # pass U b cs = ustr '' = try env.get('' @ q # t"
  shows "\<exists>u'. c # cs = ustr '' = try env.get('' @ q # u' \<and> pass U b u' = t"
proof -
  define M where "M = ustr ''= try env.get('' @ [q]"
  have c: "c = 32" and p: "pass U b cs = M @ t" using e by (simp_all add: M_def)
  have "\<not> starts_in (pre @ ustr '' = env.get('') M t" if "lead_in U b pre" for pre
  proof (rule starts_in_head)
    show "pre @ ustr '' = env.get('' \<noteq> []" by simp
    have "hd pre = 99 \<or> hd pre = 95"
      using that by (cases rule: lead_in_cases) simp_all
    moreover have "pre \<noteq> []" using that by (rule lead_in_nonempty)
    ultimately have "hd (pre @ ustr '' = env.get('') = 99 \<or> hd (pre @ ustr '' = env.get('') = 95"
      by simp
    moreover have "99 \<notin> set M" "95 \<notin> set M" using q unfolding M_def by auto
    ultimately show "hd (pre @ ustr '' = env.get('') \<notin> set M"
      by metis
  qed
  then obtain u' where u': "cs = M @ u'" "pass U b u' = t"
    using pass_pull_back [of U b M t cs] p by blast
  have "c # cs = ustr '' = try env.get('' @ q # u'"
    using c u'(1) by (simp add: M_def)
  with u'(2) show ?thesis by blast
qed


lemma open_key_in_rewritten:
  assumes pre: "lead_in U b pre" and q: "q = 34 \<or> q = 39"
    and x: "x \<noteq> []" "suffix x (rewritten pre k)"
    and e: "x @ z = ustr '' = try env.get('' @ q # t"
  shows "\<exists>u t1. k = u @ ustr '' = try env.get('' @ q # t1 \<and> t = t1 @ ustr '').?'' @ z"
proof -
  define l where "l = ustr '' = try env.get('' @ [q]"
  have pl: "prefix l (x @ z)" using e by (simp add: l_def prefix_def)
  have l2: "prefix [32, 61] l" by (simp add: l_def)
  have n1: "\<not> starts_in l pre z" for z
    by (rule lead_in_no_marker [OF pre l2])
  have n2: "\<not> starts_in l (ustr '' = env.get('') z" for z
    by (simp add: starts_in_Cons l_def)
  have n3: "\<not> starts_in l (ustr '').?'') z" for z
    by (simp add: starts_in_Cons l_def)
  have "suffix x (pre @ (ustr '' = env.get('' @ (k @ ustr '').?'')))"
    using x(2) by (simp add: rewritten_def)
  then show ?thesis
  proof (cases rule: suffix_append_cases)
    case (left x')
    then have "starts_in l pre ((ustr '' = env.get('' @ (k @ ustr '').?'')) @ z)"
      unfolding starts_in_def using pl by auto
    then show ?thesis using n1 by blast
  next
    case right
    then show ?thesis
    proof (cases rule: suffix_append_cases)
      case (left x')
      then have "starts_in l (ustr '' = env.get('') ((k @ ustr '').?'') @ z)"
        unfolding starts_in_def using pl by auto
      then show ?thesis using n2 by blast
    next
      case right
      then show ?thesis
      proof (cases rule: suffix_append_cases)
        case right
        then have "starts_in l (ustr '').?'') z"
          unfolding starts_in_def using pl x(1) by auto
        then show ?thesis using n3 by blast
      next
        case (left x')
        have "l @ t = x' @ 41 # (ustr ''.?'' @ z)"
          using e left(1) by (simp add: l_def)
        moreover have "41 \<notin> set l" using q unfolding l_def by auto
        ultimately obtain t1 where t1: "x' = l @ t1" "t = t1 @ 41 # (ustr ''.?'' @ z)"
          using first_mark_prefix [of 41 l t x' "ustr ''.?'' @ z"] by blast
        obtain u where u: "k = u @ x'" using left(2) by (auto simp: suffix_def)
        have "k = u @ ustr '' = try env.get('' @ q # t1 \<and> t = t1 @ ustr '').?'' @ z"
          using u t1 by (simp add: l_def)
        then show ?thesis by (intro exI)
      qed
    qed
  qed
qed


lemma keys_closed_pass: "keys_closed a \<Longrightarrow> keys_closed (pass U b a)"
proof (induction a rule: pass_induct [where U = U and b = b])
  case Nil
  show ?case by (simp add: pass_Nil)
next
  case (copy c cs)
  have kc: "keys_closed cs" using copy.prems by simp
  have "\<not> opens_unclosed_key (c # pass U b cs)"
  proof
    assume "opens_unclosed_key (c # pass U b cs)"
    then obtain q t where q: "q = 34 \<or> q = 39"
      and e: "c # pass U b cs = ustr '' = try env.get('' @ q # t" and t: "q \<notin> set t"
      using opens_unclosed_key_iff by blast
    obtain u' where u': "c # cs = ustr '' = try env.get('' @ q # u'" "pass U b u' = t"
      using pass_keeps_open_key [OF q e] by blast
    have "c # cs = [] @ ustr '' = try env.get('' @ q # u'"
      using u'(1) by simp
    then have "q \<in> set u'" by (rule keys_closed_open_quote [OF copy.prems _ q])
    then have "q \<in> set t" using pass_keeps_quote [OF q] u'(2) by blast
    with t show False by simp
  qed
  then have "keys_closed (c # pass U b cs)" using copy.IH [OF kc] by simp
  then show ?case using copy.hyps by (simp add: pass_copy)
next
  case (replace pre k r)
  have kc: "keys_closed r" using replace.prems keys_closed_append by blast
  have "\<not> opens_unclosed_key (x @ pass U b r)" if x: "x \<noteq> []" "suffix x (rewritten pre k)" for x
  proof
    assume "opens_unclosed_key (x @ pass U b r)"
    then obtain q t where q: "q = 34 \<or> q = 39"
      and e: "x @ pass U b r = ustr '' = try env.get('' @ q # t" and t: "q \<notin> set t"
      using opens_unclosed_key_iff by blast
    obtain u t1 where t1: "k = u @ ustr '' = try env.get('' @ q # t1"
        "t = t1 @ ustr '').?'' @ pass U b r"
      using open_key_in_rewritten [OF replace.hyps(1) q x e] by blast
    have "occurrence pre k @ r
        = (pre @ ustr '' = try env.get('' @ u) @ ustr '' = try env.get('' @ q # (t1 @ 41 # r)"
      using t1(1) by (simp add: occurrence_def)
    then have "q \<in> set (t1 @ 41 # r)"
      by (rule keys_closed_open_quote [OF replace.prems _ q])
    then have "q \<in> set t1 \<or> q \<in> set r" using q by auto
    then have "q \<in> set t" using t1(2) pass_keeps_quote [OF q, of r U b] by auto
    with t show False by simp
  qed
  then have "keys_closed (rewritten pre k @ pass U b r)"
    using keys_closed_append replace.IH [OF kc] by blast
  then show ?case using pass_replace [OF replace.hyps(1,2), of r] by simp
qed

lemma fix_env_get_calls_pass: "fix_env_get_calls U s = pass U False (pass U True s)"
  by (simp add: fix_env_get_calls_def pass_def pat_def tpl_def)

lemma keys_closed_drop_tail:
  assumes "keys_closed (x @ y)" "34 \<notin> set y" "39 \<notin> set y"
  shows "keys_closed x"
  using assms(1)
proof (induction x)
  case Nil
  show ?case by simp
next
  case (Cons c x)
  have "\<not> opens_unclosed_key (c # x)"
  proof
    assume "opens_unclosed_key (c # x)"
    then obtain q t where q: "q = 34 \<or> q = 39"
      and e: "c # x = ustr '' = try env.get('' @ q # t" and t: "q \<notin> set t"
      using opens_unclosed_key_iff by blast
    have "(c # x) @ y = ustr '' = try env.get('' @ q # (t @ y)" using e by simp
    moreover have "q \<notin> set (t @ y)" using t q assms(2,3) by auto
    ultimately have "opens_unclosed_key ((c # x) @ y)"
      using q opens_unclosed_key_iff by blast
    then show False using Cons.prems by simp
  qed
  then show ?case using Cons by simp
qed

lemma junction_newline: "junction U (10 # s)" "no_binding U (10 # s)"
  by (simp_all add: junction_def no_binding_def)

lemma junction_const:
  "junction U (ustr ''const '' @ z)"
  "z = [] \<or> hd z \<noteq> 61 \<Longrightarrow> no_binding U (ustr ''const '' @ z)"
proof -
  have d: "dropWhile (word_char U) (ustr ''const '' @ z) = 32 # z"
    by (simp add: word_char_def ascii_word_def)
  show "junction U (ustr ''const '' @ z)"
    unfolding junction_def d by simp
  show "no_binding U (ustr ''const '' @ z)" if "z = [] \<or> hd z \<noteq> 61"
    unfolding no_binding_def d using that by (cases z) auto
qed

lemma junction_discard: "junction U (95 # 32 # z)"
  by (simp add: junction_def word_char_def ascii_word_def)


lemma bare_identifier_hd:
  "bare_identifier U w \<Longrightarrow> hd (w @ z) \<noteq> 61"
  using not_word_char(8) [of U] by (cases w) (auto simp: bare_identifier_def)

lemma fix_env_get_calls_newline:
  assumes "keys_closed a"
  shows "fix_env_get_calls U (a @ 10 # b) = fix_env_get_calls U a @ 10 # fix_env_get_calls U b"
proof -
  have n: "pass U c (10 # s) = 10 # pass U c s" for c s
    by (rule pass_copy) (simp add: pat_def pattern1_def pattern2_def)
  have j: "junction U (10 # s)" "no_binding U (10 # s)" for s
    by (rule junction_newline)+
  have "pass U True (a @ 10 # b) = pass U True a @ pass U True (10 # b)"
    using pass_split [OF assms j(1)] j(2) by blast
  moreover have "pass U False (pass U True a @ 10 # pass U True b)
      = pass U False (pass U True a) @ pass U False (10 # pass U True b)"
    using pass_split [OF keys_closed_pass [OF assms] j(1)] by blast
  ultimately show ?thesis by (simp add: fix_env_get_calls_pass n)
qed

lemma pass_discarded_skips_rewritten_bound_form:
  assumes i: "bare_identifier U ident" and kfree: "\<not> sublist (ustr ''_ = try env.get('') key"
  shows "pass U False (bound_form_rewritten ident key @ R)
           = bound_form_rewritten ident key @ pass U False R"
proof -
  let ?f2 = "re_sub (pattern2 U) template2"
  have s5: "?f2 (ustr '').?'' @ R) = ustr '').?'' @ ?f2 R"
    by (rule re_sub_skip_head [OF pattern2_lead]) simp+
  have s4: "?f2 (key @ ustr '').?'' @ R) = key @ ?f2 (ustr '').?'' @ R)"
    by (rule re_sub_skip_free [OF pattern2_lead]) (use kfree in \<open>simp+\<close>)
  have s3: "?f2 (ustr '' = env.get('' @ key @ ustr '').?'' @ R)
      = ustr '' = env.get('' @ ?f2 (key @ ustr '').?'' @ R)"
    by (rule re_sub_skip_head [OF pattern2_lead]) simp+
  have s2: "?f2 (ident @ ustr '' = env.get('' @ key @ ustr '').?'' @ R)
      = ident @ ?f2 (ustr '' = env.get('' @ key @ ustr '').?'' @ R)"
    by (rule re_sub_pattern2_skip_word) (use i in \<open>(simp add: bare_identifier_def)+\<close>)
  have s1: "?f2 (ustr ''const '' @ ident @ ustr '' = env.get('' @ key @ ustr '').?'' @ R)
      = ustr ''const '' @ ?f2 (ident @ ustr '' = env.get('' @ key @ ustr '').?'' @ R)"
    by (rule re_sub_skip_head [OF pattern2_lead]) simp+
  have "?f2 (bound_form_rewritten ident key @ R) = bound_form_rewritten ident key @ ?f2 R"
    unfolding bound_form_rewritten_def append_assoc
    by (simp only: s1 s2 s3 s4 s5)
  then show ?thesis by (simp add: pass_def pat_def tpl_def)
qed

lemma fix_env_get_calls_bound_form:
  assumes i: "bare_identifier U ident" and k: "key_shape U key"
    and kfree: "\<not> sublist (ustr ''_ = try env.get('') key"
    and a: "keys_closed a"
  shows "fix_env_get_calls U (a @ bound_form ident key @ rest)
           = fix_env_get_calls U a @ bound_form_rewritten ident key @ fix_env_get_calls U rest"
proof -
  have l: "lead_in U True (ustr ''const '' @ ident)"
    using i by (simp add: lead_in_def)
  have j1: "junction U (bound_form ident key @ rest)"
    using junction_const(1) [of U "ident @ ustr '' = try env.get('' @ key @ ustr '')'' @ rest"]
    by (simp add: bound_form_def)
  have b1: "no_binding U (bound_form ident key @ rest)"
    using junction_const(2) [of "ident @ ustr '' = try env.get('' @ key @ ustr '')'' @ rest" U]
      bare_identifier_hd [OF i]
    by (simp add: bound_form_def)
  have "pass U True (a @ bound_form ident key @ rest)
      = pass U True a @ pass U True (bound_form ident key @ rest)"
    using pass_split [OF a j1] b1 by blast
  then have p1: "pass U True (a @ bound_form ident key @ rest)
      = pass U True a @ bound_form_rewritten ident key @ pass U True rest"
    using pass_replace [OF l k, of rest]
    by (simp add: bound_form_occurrence bound_form_rewritten_eq)
  have j2: "junction U (bound_form_rewritten ident key @ pass U True rest)"
    using junction_const(1)
      [of U "ident @ ustr '' = env.get('' @ key @ ustr '').?'' @ pass U True rest"]
    by (simp add: bound_form_rewritten_def)
  have "pass U False (pass U True a @ bound_form_rewritten ident key @ pass U True rest)
      = pass U False (pass U True a)
          @ pass U False (bound_form_rewritten ident key @ pass U True rest)"
    using pass_split [OF keys_closed_pass [OF a] j2] by blast
  then show ?thesis
    using p1 pass_discarded_skips_rewritten_bound_form [OF i kfree]
    by (simp add: fix_env_get_calls_pass)
qed

lemma pass_bound_skips_discarded_form:
  assumes kfree: "\<not> sublist (ustr '' = try env.get('') key"
  shows "pass U True (discarded_form key @ R) = discarded_form key @ pass U True R"
proof -
  let ?f1 = "re_sub (pattern1 U) template1"
  have s3: "?f1 (ustr '')'' @ R) = ustr '')'' @ ?f1 R"
    by (rule re_sub_skip_head [OF pattern1_lead]) simp+
  have s2: "?f1 (key @ ustr '')'' @ R) = key @ ?f1 (ustr '')'' @ R)"
  proof (rule re_sub_skip)
    fix a' assume a': "a' \<noteq> []" "suffix a' key"
    show "rmatch (pattern1 U) (a' @ ustr '')'' @ R) Map.empty = []"
    proof (cases "rmatch (pattern1 U) (a' @ ustr '')'' @ R) Map.empty")
      case Nil
      then show ?thesis .
    next
      case (Cons m ms)
      obtain s' g where m: "m = (s', g)" by (cases m)
      obtain ident k2 where ik: "bare_identifier U ident"
          "a' @ ustr '')'' @ R = bound_form ident k2 @ s'"
        using pattern1_match_sound [of U "a' @ ustr '')'' @ R" s' g ms] Cons m by auto
      define L where "L = ustr ''const '' @ ident @ ustr '' = try env.get(''"
      have "41 \<notin> set ident"
        using bare_identifier_not_word [OF ik(1) not_word_char(6)] .
      then have "41 \<notin> set L" by (simp add: L_def)
      moreover have "L @ (k2 @ 41 # s') = a' @ 41 # R"
        using ik(2) by (simp add: L_def bound_form_def)
      ultimately obtain t1 where "a' = L @ t1"
        using first_mark_prefix [of 41 L "k2 @ 41 # s'" a' R] by blast
      then have "sublist (ustr '' = try env.get('') a'"
        unfolding L_def sublist_def by (metis append_assoc)
      moreover have "sublist a' key" using a'(2) by (rule suffix_imp_sublist)
      ultimately have "sublist (ustr '' = try env.get('') key"
        using sublist_order.order_trans by blast
      with kfree show ?thesis by simp
    qed
  qed
  have s1: "?f1 (ustr ''_ = try env.get('' @ key @ ustr '')'' @ R)
      = ustr ''_ = try env.get('' @ ?f1 (key @ ustr '')'' @ R)"
    by (rule re_sub_skip_head [OF pattern1_lead]) simp+
  have "?f1 (discarded_form key @ R) = discarded_form key @ ?f1 R"
    unfolding discarded_form_def append_assoc
    by (simp only: s1 s2 s3)
  then show ?thesis by (simp add: pass_def pat_def tpl_def)
qed

lemma pass_const_tail:
  assumes "list_all (word_char U) y"
  shows "pass U b (ustr ''const '' @ y) = ustr ''const '' @ y"
proof -
  have "61 \<notin> set y"
    using assms not_word_char(8) [of U] by (auto simp: list_all_iff)
  then have n: "61 \<notin> set (ustr ''const '' @ y)" by simp
  have "re_sub (pat U b) (tpl b) ((ustr ''const '' @ y) @ [])
      = (ustr ''const '' @ y) @ re_sub (pat U b) (tpl b) []"
  proof (rule re_sub_skip)
    fix a' assume a': "a' \<noteq> []" "suffix a' (ustr ''const '' @ y)"
    show "rmatch (pat U b) (a' @ []) Map.empty = []"
    proof (cases "rmatch (pat U b) (a' @ []) Map.empty")
      case Nil
      then show ?thesis .
    next
      case (Cons m ms)
      obtain s' g where m: "m = (s', g)" by (cases m)
      obtain pre k where "a' @ [] = occurrence pre k @ s'"
        using pat_sound [of U b "a' @ []" s' g ms] Cons m by auto
      then have "61 \<in> set a'" by (simp add: occurrence_def)
      moreover have "set a' \<subseteq> set (ustr ''const '' @ y)"
        using a'(2) by (rule set_mono_suffix)
      ultimately have "61 \<in> set (ustr ''const '' @ y)" by blast
      with n show ?thesis by simp
    qed
  qed
  then show ?thesis using pass_Nil [of U b] by (simp add: pass_def)
qed

lemma fix_env_get_calls_const_tail:
  assumes a: "keys_closed a0" and y: "list_all (word_char U) y"
  shows "fix_env_get_calls U (a0 @ ustr ''const '' @ y)
           = fix_env_get_calls U a0 @ ustr ''const '' @ y"
proof -
  have j: "junction U (ustr ''const '' @ y)" by (rule junction_const(1))
  have "y = [] \<or> hd y \<noteq> 61"
    using y not_word_char(8) [of U] by (cases y) auto
  then have nb: "no_binding U (ustr ''const '' @ y)" by (rule junction_const(2))
  have "pass U True (a0 @ ustr ''const '' @ y)
      = pass U True a0 @ pass U True (ustr ''const '' @ y)"
    using pass_split [OF a j] nb by blast
  moreover have "pass U False (pass U True a0 @ ustr ''const '' @ y)
      = pass U False (pass U True a0) @ pass U False (ustr ''const '' @ y)"
    using pass_split [OF keys_closed_pass [OF a] j] by blast
  ultimately show ?thesis
    using pass_const_tail [OF y] by (simp add: fix_env_get_calls_pass)
qed

lemma fix_env_get_calls_discarded_form:
  assumes k: "key_shape U key"
    and kfree: "\<not> sublist (ustr '' = try env.get('') key"
    and a: "keys_closed a"
  shows "fix_env_get_calls U (a @ discarded_form key @ rest)
           = fix_env_get_calls U a @ discarded_form_rewritten key @ fix_env_get_calls U rest"
proof (cases "const_tail U a")
  case True
  then obtain y a0 where y: "list_all (word_char U) y" and a0: "a = a0 @ ustr ''const '' @ y"
    unfolding const_tail_def suffix_def by blast
  have i: "bare_identifier U (y @ [95])"
    using y by (simp add: bare_identifier_def word_char_def ascii_word_def)
  have "sublist (ustr '' = try env.get('') (ustr ''_ = try env.get('')"
    by (intro suffix_imp_sublist suffixI [of _ "[95]"]) simp
  then have kfree2: "\<not> sublist (ustr ''_ = try env.get('') key"
    using kfree sublist_order.order_trans by blast
  have "34 \<notin> set y" "39 \<notin> set y"
    using y not_word_char(3,4) [of U] by (auto simp: list_all_iff)
  then have "34 \<notin> set (ustr ''const '' @ y)" "39 \<notin> set (ustr ''const '' @ y)" by simp_all
  then have kc0: "keys_closed a0"
    using keys_closed_drop_tail [of a0 "ustr ''const '' @ y"] a a0 by blast
  have e: "a @ discarded_form key @ rest = a0 @ bound_form (y @ [95]) key @ rest"
    by (simp add: a0 discarded_form_def bound_form_def)
  have "fix_env_get_calls U (a @ discarded_form key @ rest)
      = fix_env_get_calls U a0 @ bound_form_rewritten (y @ [95]) key @ fix_env_get_calls U rest"
    unfolding e by (rule fix_env_get_calls_bound_form [OF i k kfree2 kc0])
  moreover have "fix_env_get_calls U a = fix_env_get_calls U a0 @ ustr ''const '' @ y"
    unfolding a0 by (rule fix_env_get_calls_const_tail [OF kc0 y])
  ultimately show ?thesis
    by (simp add: bound_form_rewritten_def discarded_form_rewritten_def)
next
  case False
  have l: "lead_in U False (ustr ''_'')" by (simp add: lead_in_def)
  have j: "junction U (discarded_form key @ s)" for s
    using junction_discard [of U] by (simp add: discarded_form_def)
  have "pass U True (a @ discarded_form key @ rest)
      = pass U True a @ pass U True (discarded_form key @ rest)"
    using pass_split [OF a j] False by blast
  then have p1: "pass U True (a @ discarded_form key @ rest)
      = pass U True a @ discarded_form key @ pass U True rest"
    using pass_bound_skips_discarded_form [OF kfree] by simp
  have "pass U False (pass U True a @ discarded_form key @ pass U True rest)
      = pass U False (pass U True a) @ pass U False (discarded_form key @ pass U True rest)"
    using pass_split [OF keys_closed_pass [OF a] j] by blast
  then show ?thesis
    using p1 pass_replace [OF l k, of "pass U True rest"]
    by (simp add: fix_env_get_calls_pass discarded_form_occurrence discarded_form_rewritten_eq)
qed

section \<open>The Declaration Mutability Fixer\<close>

text \<open>
  Claim C1. \<open>fix_const_to_var\<close> replaces every occurrence of \<open>const env = try\<close> by
  \<open>var env = try\<close> and changes nothing else: around any occurrence the text before and
  the text after are transformed on their own and the occurrence becomes
  \<open>var env = try\<close>; a text with no occurrence is returned as it is. (The two equations
  fix the output of every text: cut it at its occurrences.) The two examples of the
  specification follow.
\<close>

theorem fix_const_to_var_replaces_each_occurrence:
  "fix_const_to_var (a @ ustr ''const env = try'' @ b)
     = fix_const_to_var a @ ustr ''var env = try'' @ fix_const_to_var b
   \<and> (\<not> sublist (ustr ''const env = try'') s \<longrightarrow> fix_const_to_var s = s)
   \<and> fix_const_to_var (ustr ''const env = try Env.load();'') = ustr ''var env = try Env.load();''
   \<and> fix_const_to_var (ustr ''const config = try Config.load();'')
       = ustr ''const config = try Config.load();''"
proof (intro conjI impI)
  show "fix_const_to_var (a @ ustr ''const env = try'' @ b)
     = fix_const_to_var a @ ustr ''var env = try'' @ fix_const_to_var b"
    unfolding fix_const_to_var_def const_env_pattern_def var_env_template_def
    using sub_lit_hom [of 99 "ustr ''onst env = try''" "ustr ''var env = try''" a b]
    by simp
  show "fix_const_to_var s = s" if "\<not> sublist (ustr ''const env = try'') s"
    unfolding fix_const_to_var_def const_env_pattern_def var_env_template_def
    using that by (intro sub_lit_unchanged) simp_all
  show "fix_const_to_var (ustr ''const env = try Env.load();'') = ustr ''var env = try Env.load();''"
    by code_simp
  show "fix_const_to_var (ustr ''const config = try Config.load();'')
       = ustr ''const config = try Config.load();''"
    by code_simp
qed

theorem fix_const_to_var_replaces_each_occurrence_witness:
  "fix_const_to_var (ustr ''  '' @ ustr ''const env = try'' @ ustr '' a; const env = try b;'')
     = ustr ''  var env = try a; var env = try b;''
   \<and> \<not> sublist (ustr ''const env = try'') (ustr ''const env = tr'')
   \<and> fix_const_to_var (ustr ''const env = tr'') = ustr ''const env = tr''"
proof -
  have h: "\<not> sublist (ustr ''const env = try'') (ustr ''const env = tr'')"
    by code_simp
  have e1: "fix_const_to_var (ustr ''  '') = ustr ''  ''" by code_simp
  have e2: "fix_const_to_var (ustr '' a; const env = try b;'') = ustr '' a; var env = try b;''"
    by code_simp
  show ?thesis
    using fix_const_to_var_replaces_each_occurrence
      [of "ustr ''  ''" "ustr '' a; const env = try b;''" "ustr ''const env = tr''"] h e1 e2
    by simp
qed

text \<open>
  Claim C4. \<open>fix_const_to_var\<close> is idempotent, and its output contains no occurrence of
  \<open>const env = try\<close>.
\<close>

theorem fix_const_to_var_idempotent:
  "fix_const_to_var (fix_const_to_var s) = fix_const_to_var s
   \<and> \<not> sublist (ustr ''const env = try'') (fix_const_to_var s)"
proof -
  have free: "\<not> sublist (ustr ''const env = try'') (fix_const_to_var s)"
    unfolding fix_const_to_var_def const_env_pattern_def var_env_template_def
    using sub_lit_output_free [of "ustr ''var env = try''" 99 "ustr ''onst env = try''" s]
    by simp
  have "fix_const_to_var (fix_const_to_var s) = fix_const_to_var s"
    using free
      sub_lit_unchanged [of "ustr ''const env = try''" "fix_const_to_var s" "ustr ''var env = try''"]
    by (simp add: fix_const_to_var_def const_env_pattern_def var_env_template_def)
  with free show ?thesis by simp
qed

section \<open>The Optional-Unwrap Rewriter\<close>

text \<open>
  Claim C2, amended. The pattern names the lookup call \<open>env.get\<close> literally, a quoted key
  needs a non-empty content without its own quote character, and the second
  substitution runs over the output of the first. For a non-empty identifier of word
  characters and a key of one of the three shapes that does not contain the text
  \<open>_ = try env.get(\<close>: in a text \<open>a\<close>, then \<open>const <identifier> = try env.get(<key>)\<close>,
  then \<open>rest\<close>, where \<open>a\<close> does not end inside a quoted key (every quote character
  right after \<open> = try env.get(\<close> in \<open>a\<close> occurs again later in \<open>a\<close>), the occurrence
  becomes \<open>const <identifier> = env.get(<key>).?\<close> with the identifier and the key as
  they were, and \<open>a\<close> and \<open>rest\<close> are transformed on their own. The two examples of the
  specification follow.
\<close>

theorem bound_form_rewrite:
  "(bare_identifier U ident \<and> key_shape U key
      \<and> \<not> sublist (ustr ''_ = try env.get('') key \<and> keys_closed a
    \<longrightarrow> fix_env_get_calls U (a @ bound_form ident key @ rest)
          = fix_env_get_calls U a @ bound_form_rewritten ident key @ fix_env_get_calls U rest)
   \<and> fix_env_get_calls U (ustr ''const apiKey = try env.get('' @ [34] @ ustr ''API_KEY'' @ [34] @ ustr '')'')
       = ustr ''const apiKey = env.get('' @ [34] @ ustr ''API_KEY'' @ [34] @ ustr '').?''
   \<and> fix_env_get_calls U (ustr ''const val = try env.get(keyVar)'')
       = ustr ''const val = env.get(keyVar).?''"
proof (intro conjI impI)
  assume "bare_identifier U ident \<and> key_shape U key
      \<and> \<not> sublist (ustr ''_ = try env.get('') key \<and> keys_closed a"
  then show "fix_env_get_calls U (a @ bound_form ident key @ rest)
          = fix_env_get_calls U a @ bound_form_rewritten ident key @ fix_env_get_calls U rest"
    using fix_env_get_calls_bound_form by blast
next
  have i: "bare_identifier U (ustr ''apiKey'')"
    by (simp add: bare_identifier_def word_char_def ascii_word_def)
  have k: "key_shape U (34 # ustr ''API_KEY'' @ [34])"
    by (simp add: key_shape_def quoted_def)
  have f: "\<not> sublist (ustr ''_ = try env.get('') (34 # ustr ''API_KEY'' @ [34])"
    by (simp add: sublist_Cons_right)
  have a: "keys_closed []" by simp
  show "fix_env_get_calls U (ustr ''const apiKey = try env.get('' @ [34] @ ustr ''API_KEY'' @ [34] @ ustr '')'')
       = ustr ''const apiKey = env.get('' @ [34] @ ustr ''API_KEY'' @ [34] @ ustr '').?''"
    using fix_env_get_calls_bound_form [OF i k f a, of "[]"]
    by (simp add: bound_form_def bound_form_rewritten_def fix_env_get_calls_Nil)
next
  have i: "bare_identifier U (ustr ''val'')"
    by (simp add: bare_identifier_def word_char_def ascii_word_def)
  have k: "key_shape U (ustr ''keyVar'')"
    by (simp add: key_shape_def bare_identifier_def word_char_def ascii_word_def)
  have f: "\<not> sublist (ustr ''_ = try env.get('') (ustr ''keyVar'')"
    by (simp add: sublist_Cons_right)
  have a: "keys_closed []" by simp
  show "fix_env_get_calls U (ustr ''const val = try env.get(keyVar)'')
       = ustr ''const val = env.get(keyVar).?''"
    using fix_env_get_calls_bound_form [OF i k f a, of "[]"]
    by (simp add: bound_form_def bound_form_rewritten_def fix_env_get_calls_Nil)
qed

theorem bound_form_rewrite_witness:
  "bare_identifier ascii_only (ustr ''port'') \<and> key_shape ascii_only (39 # ustr ''PORT'' @ [39])
   \<and> \<not> sublist (ustr ''_ = try env.get('') (39 # ustr ''PORT'' @ [39])
   \<and> keys_closed (ustr ''const host = try env.get('' @ [34] @ ustr ''HOST'' @ [34] @ ustr '');''
        @ 10 # ustr ''    '')
   \<and> fix_env_get_calls ascii_only
        ((ustr ''const host = try env.get('' @ [34] @ ustr ''HOST'' @ [34] @ ustr '');''
           @ 10 # ustr ''    '')
         @ bound_form (ustr ''port'') (39 # ustr ''PORT'' @ [39]) @ ustr '';'')
       = (ustr ''const host = env.get('' @ [34] @ ustr ''HOST'' @ [34] @ ustr '').?;''
           @ 10 # ustr ''    '')
         @ bound_form_rewritten (ustr ''port'') (39 # ustr ''PORT'' @ [39]) @ ustr '';''"
proof -
  have h1: "bare_identifier ascii_only (ustr ''port'')" by code_simp
  have h2: "key_shape ascii_only (39 # ustr ''PORT'' @ [39])" by code_simp
  have h3: "\<not> sublist (ustr ''_ = try env.get('') (39 # ustr ''PORT'' @ [39])" by code_simp
  have h4: "keys_closed (ustr ''const host = try env.get('' @ [34] @ ustr ''HOST'' @ [34]
        @ ustr '');'' @ 10 # ustr ''    '')"
    by code_simp
  have e1: "fix_env_get_calls ascii_only
        (ustr ''const host = try env.get('' @ [34] @ ustr ''HOST'' @ [34] @ ustr '');''
           @ 10 # ustr ''    '')
      = ustr ''const host = env.get('' @ [34] @ ustr ''HOST'' @ [34] @ ustr '').?;''
           @ 10 # ustr ''    ''"
    by code_simp
  have e2: "fix_env_get_calls ascii_only (ustr '';'') = ustr '';''" by code_simp
  have "fix_env_get_calls ascii_only
        ((ustr ''const host = try env.get('' @ [34] @ ustr ''HOST'' @ [34] @ ustr '');''
           @ 10 # ustr ''    '')
         @ bound_form (ustr ''port'') (39 # ustr ''PORT'' @ [39]) @ ustr '';'')
      = fix_env_get_calls ascii_only
          (ustr ''const host = try env.get('' @ [34] @ ustr ''HOST'' @ [34] @ ustr '');''
             @ 10 # ustr ''    '')
        @ bound_form_rewritten (ustr ''port'') (39 # ustr ''PORT'' @ [39])
        @ fix_env_get_calls ascii_only (ustr '';'')"
    using bound_form_rewrite [of ascii_only "ustr ''port''" "39 # ustr ''PORT'' @ [39]"
        "ustr ''const host = try env.get('' @ [34] @ ustr ''HOST'' @ [34] @ ustr '');''
           @ 10 # ustr ''    ''" "ustr '';''"] h1 h2 h3 h4
    by blast
  then show ?thesis
    unfolding e1 e2 using h1 h2 h3 h4 by blast
qed

text \<open>
  The claim as stated fails: with another lookup call (\<open>cfg.get\<close>) nothing is
  rewritten; the empty string literal is not a key of the pattern; a key that
  contains a discarded form is changed by the second substitution; and an occurrence
  inside the key of an earlier match is not rewritten.
\<close>

theorem bound_form_claim_counterexample:
  "fix_env_get_calls ascii_only (ustr ''const x = try cfg.get(k)'') \<noteq> ustr ''const x = cfg.get(k).?''
   \<and> fix_env_get_calls ascii_only (ustr ''const x = try env.get('' @ [34, 34] @ ustr '')'')
       \<noteq> ustr ''const x = env.get('' @ [34, 34] @ ustr '').?''
   \<and> fix_env_get_calls ascii_only
        (ustr ''const a = try env.get('' @ [34] @ ustr ''_ = try env.get(x)'' @ [34] @ ustr '')'')
       \<noteq> ustr ''const a = env.get('' @ [34] @ ustr ''_ = try env.get(x)'' @ [34] @ ustr '').?''
   \<and> fix_env_get_calls ascii_only
        (ustr ''const a = try env.get('' @ [34] @ ustr ''const b = try env.get(c)'' @ [34] @ ustr '')'')
       = ustr ''const a = env.get('' @ [34] @ ustr ''const b = try env.get(c)'' @ [34] @ ustr '').?''"
  by code_simp

text \<open>
  Claim C3, amended. For the lookup call \<open>env.get\<close> and a key of one of the three shapes
  that does not contain the text \<open> = try env.get(\<close>: in a text \<open>a\<close>, then
  \<open>_ = try env.get(<key>)\<close>, then \<open>rest\<close>, where \<open>a\<close> does not end inside a quoted key
  (every quote character right after \<open> = try env.get(\<close> in \<open>a\<close> occurs again later in
  \<open>a\<close>), the occurrence becomes \<open>_ = env.get(<key>).?\<close> with the key as it was, and \<open>a\<close>
  and \<open>rest\<close> are transformed on their own. The example of the specification follows.
\<close>

theorem discarded_form_rewrite:
  "(key_shape U key \<and> \<not> sublist (ustr '' = try env.get('') key \<and> keys_closed a
    \<longrightarrow> fix_env_get_calls U (a @ discarded_form key @ rest)
          = fix_env_get_calls U a @ discarded_form_rewritten key @ fix_env_get_calls U rest)
   \<and> fix_env_get_calls U (ustr ''_ = try env.get('' @ [39] @ ustr ''DEBUG'' @ [39] @ ustr '')'')
       = ustr ''_ = env.get('' @ [39] @ ustr ''DEBUG'' @ [39] @ ustr '').?''"
proof (intro conjI impI)
  assume "key_shape U key \<and> \<not> sublist (ustr '' = try env.get('') key \<and> keys_closed a"
  then show "fix_env_get_calls U (a @ discarded_form key @ rest)
          = fix_env_get_calls U a @ discarded_form_rewritten key @ fix_env_get_calls U rest"
    using fix_env_get_calls_discarded_form by blast
next
  have k: "key_shape U (39 # ustr ''DEBUG'' @ [39])"
    by (simp add: key_shape_def quoted_def)
  have f: "\<not> sublist (ustr '' = try env.get('') (39 # ustr ''DEBUG'' @ [39])"
    by (simp add: sublist_Cons_right)
  have a: "keys_closed []" by simp
  show "fix_env_get_calls U (ustr ''_ = try env.get('' @ [39] @ ustr ''DEBUG'' @ [39] @ ustr '')'')
       = ustr ''_ = env.get('' @ [39] @ ustr ''DEBUG'' @ [39] @ ustr '').?''"
    using fix_env_get_calls_discarded_form [OF k f a, of "[]"]
    by (simp add: discarded_form_def discarded_form_rewritten_def fix_env_get_calls_Nil)
qed

theorem discarded_form_rewrite_witness:
  "key_shape ascii_only (ustr ''HOME'')
   \<and> \<not> sublist (ustr '' = try env.get('') (ustr ''HOME'')
   \<and> keys_closed (ustr ''const name = '' @ [34] @ ustr ''const x'' @ [34] @ ustr '';''
        @ 10 # ustr ''  '')
   \<and> fix_env_get_calls ascii_only
        ((ustr ''const name = '' @ [34] @ ustr ''const x'' @ [34] @ ustr '';'' @ 10 # ustr ''  '')
         @ discarded_form (ustr ''HOME'') @ ustr '';'')
       = (ustr ''const name = '' @ [34] @ ustr ''const x'' @ [34] @ ustr '';'' @ 10 # ustr ''  '')
         @ discarded_form_rewritten (ustr ''HOME'') @ ustr '';''"
proof -
  have h1: "key_shape ascii_only (ustr ''HOME'')" by code_simp
  have h2: "\<not> sublist (ustr '' = try env.get('') (ustr ''HOME'')" by code_simp
  have h3: "keys_closed (ustr ''const name = '' @ [34] @ ustr ''const x'' @ [34] @ ustr '';''
        @ 10 # ustr ''  '')"
    by code_simp
  have e1: "fix_env_get_calls ascii_only
        (ustr ''const name = '' @ [34] @ ustr ''const x'' @ [34] @ ustr '';'' @ 10 # ustr ''  '')
      = ustr ''const name = '' @ [34] @ ustr ''const x'' @ [34] @ ustr '';'' @ 10 # ustr ''  ''"
    by code_simp
  have e2: "fix_env_get_calls ascii_only (ustr '';'') = ustr '';''" by code_simp
  have "fix_env_get_calls ascii_only
        ((ustr ''const name = '' @ [34] @ ustr ''const x'' @ [34] @ ustr '';'' @ 10 # ustr ''  '')
         @ discarded_form (ustr ''HOME'') @ ustr '';'')
      = fix_env_get_calls ascii_only
          (ustr ''const name = '' @ [34] @ ustr ''const x'' @ [34] @ ustr '';'' @ 10 # ustr ''  '')
        @ discarded_form_rewritten (ustr ''HOME'') @ fix_env_get_calls ascii_only (ustr '';'')"
    using discarded_form_rewrite [of ascii_only "ustr ''HOME''"
        "ustr ''const name = '' @ [34] @ ustr ''const x'' @ [34] @ ustr '';'' @ 10 # ustr ''  ''"
        "ustr '';''"] h1 h2 h3
    by blast
  then show ?thesis
    unfolding e1 e2 using h1 h2 h3 by blast
qed

text \<open>
  The claim as stated fails: with another lookup call nothing is rewritten; the empty
  string literal is not a key of the pattern; a key that contains a bound form is
  changed by the first substitution; and an occurrence inside the key of an earlier
  match is not rewritten.
\<close>

theorem discarded_form_claim_counterexample:
  "fix_env_get_calls ascii_only (ustr ''_ = try cfg.get(k)'') \<noteq> ustr ''_ = cfg.get(k).?''
   \<and> fix_env_get_calls ascii_only (ustr ''_ = try env.get('' @ [39, 39] @ ustr '')'')
       \<noteq> ustr ''_ = env.get('' @ [39, 39] @ ustr '').?''
   \<and> fix_env_get_calls ascii_only
        (ustr ''_ = try env.get('' @ [34] @ ustr ''const x = try env.get(y)'' @ [34] @ ustr '')'')
       \<noteq> ustr ''_ = env.get('' @ [34] @ ustr ''const x = try env.get(y)'' @ [34] @ ustr '').?''
   \<and> fix_env_get_calls ascii_only
        (ustr ''_ = try env.get('' @ [34] @ ustr ''_ = try env.get(c)'' @ [34] @ ustr '')'')
       = ustr ''_ = env.get('' @ [34] @ ustr ''_ = try env.get(c)'' @ [34] @ ustr '').?''"
  by code_simp

text \<open>
  Claim C5, amended. The class \<open>[^"]\<close> (and \<open>[^']\<close>) accepts a newline, so a match can
  span lines inside a quoted key, and only there: the text that a match of either
  pattern consumes is a bound form (a discarded form) whose identifier holds no
  newline and whose key holds one only if it is quoted. The transformation
  distributes over \<open>a\<close>, newline, \<open>b\<close> whenever \<open>a\<close> does not end inside a quoted key:
  every quote character right after \<open> = try env.get(\<close> in \<open>a\<close> occurs again later in
  \<open>a\<close>.
\<close>

theorem newline_only_in_quoted_key:
  "(rmatch (pattern1 U) s Map.empty = (s', g) # ms
      \<longrightarrow> (\<exists>ident key. bare_identifier U ident \<and> key_shape U key
             \<and> s = bound_form ident key @ s' \<and> 10 \<notin> set ident
             \<and> (10 \<in> set key \<longrightarrow> quoted 34 key \<or> quoted 39 key)))
   \<and> (rmatch (pattern2 U) s Map.empty = (s', g) # ms
      \<longrightarrow> (\<exists>key. key_shape U key \<and> s = discarded_form key @ s'
             \<and> (10 \<in> set key \<longrightarrow> quoted 34 key \<or> quoted 39 key)))
   \<and> (keys_closed a
      \<longrightarrow> fix_env_get_calls U (a @ 10 # b)
            = fix_env_get_calls U a @ 10 # fix_env_get_calls U b)"
proof (intro conjI impI)
  assume "rmatch (pattern1 U) s Map.empty = (s', g) # ms"
  then obtain ident key where "bare_identifier U ident" "key_shape U key"
      "s = bound_form ident key @ s'"
    using pattern1_match_sound by blast
  then show "\<exists>ident key. bare_identifier U ident \<and> key_shape U key
             \<and> s = bound_form ident key @ s' \<and> 10 \<notin> set ident
             \<and> (10 \<in> set key \<longrightarrow> quoted 34 key \<or> quoted 39 key)"
    using bare_identifier_no_newline key_newline_quoted by blast
next
  assume "rmatch (pattern2 U) s Map.empty = (s', g) # ms"
  then obtain key where "key_shape U key" "s = discarded_form key @ s'"
    using pattern2_match_sound by blast
  then show "\<exists>key. key_shape U key \<and> s = discarded_form key @ s'
             \<and> (10 \<in> set key \<longrightarrow> quoted 34 key \<or> quoted 39 key)"
    using key_newline_quoted by blast
next
  assume "keys_closed a"
  then show "fix_env_get_calls U (a @ 10 # b)
            = fix_env_get_calls U a @ 10 # fix_env_get_calls U b"
    using fix_env_get_calls_newline by blast
qed

theorem newline_only_in_quoted_key_witness:
  "rmatch (pattern1 ascii_only) (ustr ''const x = try env.get(k);'') Map.empty
     = (ustr '';'', [1 \<mapsto> ustr ''x'', 2 \<mapsto> ustr ''k'']) # []
   \<and> (\<exists>ident key. bare_identifier ascii_only ident \<and> key_shape ascii_only key
         \<and> ustr ''const x = try env.get(k);'' = bound_form ident key @ ustr '';''
         \<and> 10 \<notin> set ident \<and> (10 \<in> set key \<longrightarrow> quoted 34 key \<or> quoted 39 key))
   \<and> rmatch (pattern2 ascii_only) (ustr ''_ = try env.get(j);'') Map.empty
     = (ustr '';'', [1 \<mapsto> ustr ''j'']) # []
   \<and> (\<exists>key. key_shape ascii_only key
         \<and> ustr ''_ = try env.get(j);'' = discarded_form key @ ustr '';''
         \<and> (10 \<in> set key \<longrightarrow> quoted 34 key \<or> quoted 39 key))
   \<and> keys_closed (ustr ''const apiKey = try env.get('' @ [34] @ ustr ''API_KEY'' @ [34] @ ustr '');'')
   \<and> fix_env_get_calls ascii_only
        ((ustr ''const apiKey = try env.get('' @ [34] @ ustr ''API_KEY'' @ [34] @ ustr '');'')
         @ 10 # (ustr ''_ = try env.get('' @ [39] @ ustr ''DEBUG'' @ [39] @ ustr '');''))
       = (ustr ''const apiKey = env.get('' @ [34] @ ustr ''API_KEY'' @ [34] @ ustr '').?;'')
         @ 10 # (ustr ''_ = env.get('' @ [39] @ ustr ''DEBUG'' @ [39] @ ustr '').?;'')"
proof -
  have m1: "rmatch (pattern1 ascii_only) (ustr ''const x = try env.get(k);'') Map.empty
       = (ustr '';'', [1 \<mapsto> ustr ''x'', 2 \<mapsto> ustr ''k'']) # []"
    by (simp add: pattern1_def key_alternatives_def word_char_def ascii_word_def
        word_or_underscore_def not_dquote_def not_squote_def)
  have m2: "rmatch (pattern2 ascii_only) (ustr ''_ = try env.get(j);'') Map.empty
       = (ustr '';'', [1 \<mapsto> ustr ''j'']) # []"
    by (simp add: pattern2_def key_alternatives_def word_char_def ascii_word_def
        word_or_underscore_def not_dquote_def not_squote_def)
  have q: "keys_closed
      (ustr ''const apiKey = try env.get('' @ [34] @ ustr ''API_KEY'' @ [34] @ ustr '');'')"
    by code_simp
  have e1: "fix_env_get_calls ascii_only
        (ustr ''const apiKey = try env.get('' @ [34] @ ustr ''API_KEY'' @ [34] @ ustr '');'')
      = ustr ''const apiKey = env.get('' @ [34] @ ustr ''API_KEY'' @ [34] @ ustr '').?;''"
    by code_simp
  have e2: "fix_env_get_calls ascii_only
        (ustr ''_ = try env.get('' @ [39] @ ustr ''DEBUG'' @ [39] @ ustr '');'')
      = ustr ''_ = env.get('' @ [39] @ ustr ''DEBUG'' @ [39] @ ustr '').?;''"
    by code_simp
  have c1: "\<exists>ident key. bare_identifier ascii_only ident \<and> key_shape ascii_only key
         \<and> ustr ''const x = try env.get(k);'' = bound_form ident key @ ustr '';''
         \<and> 10 \<notin> set ident \<and> (10 \<in> set key \<longrightarrow> quoted 34 key \<or> quoted 39 key)"
    using newline_only_in_quoted_key [of ascii_only "ustr ''const x = try env.get(k);''"
        "ustr '';''" "[1 \<mapsto> ustr ''x'', 2 \<mapsto> ustr ''k'']" "[]"] m1
    by blast
  have c2: "\<exists>key. key_shape ascii_only key
         \<and> ustr ''_ = try env.get(j);'' = discarded_form key @ ustr '';''
         \<and> (10 \<in> set key \<longrightarrow> quoted 34 key \<or> quoted 39 key)"
    using newline_only_in_quoted_key [of ascii_only "ustr ''_ = try env.get(j);''"
        "ustr '';''" "[1 \<mapsto> ustr ''j'']" "[]"] m2
    by blast
  have "fix_env_get_calls ascii_only
        ((ustr ''const apiKey = try env.get('' @ [34] @ ustr ''API_KEY'' @ [34] @ ustr '');'')
         @ 10 # (ustr ''_ = try env.get('' @ [39] @ ustr ''DEBUG'' @ [39] @ ustr '');''))
      = fix_env_get_calls ascii_only
          (ustr ''const apiKey = try env.get('' @ [34] @ ustr ''API_KEY'' @ [34] @ ustr '');'')
        @ 10 # fix_env_get_calls ascii_only
          (ustr ''_ = try env.get('' @ [39] @ ustr ''DEBUG'' @ [39] @ ustr '');'')"
    using newline_only_in_quoted_key [of ascii_only _ _ _ _
        "ustr ''const apiKey = try env.get('' @ [34] @ ustr ''API_KEY'' @ [34] @ ustr '');''"
        "ustr ''_ = try env.get('' @ [39] @ ustr ''DEBUG'' @ [39] @ ustr '');''"] q
    by blast
  then have c3: "fix_env_get_calls ascii_only
        ((ustr ''const apiKey = try env.get('' @ [34] @ ustr ''API_KEY'' @ [34] @ ustr '');'')
         @ 10 # (ustr ''_ = try env.get('' @ [39] @ ustr ''DEBUG'' @ [39] @ ustr '');''))
       = (ustr ''const apiKey = env.get('' @ [34] @ ustr ''API_KEY'' @ [34] @ ustr '').?;'')
         @ 10 # (ustr ''_ = env.get('' @ [39] @ ustr ''DEBUG'' @ [39] @ ustr '').?;'')"
    unfolding e1 e2 .
  show ?thesis using m1 m2 q c1 c2 c3 by blast
qed

text \<open>
  The claim as stated fails for \<open>a\<close> = \<open>const x = try env.get("a\<close> and \<open>b\<close> = \<open>b")\<close>: the
  joined text is one match whose key spans the newline, the two parts alone have
  none.
\<close>

theorem newline_claim_counterexample:
  "fix_env_get_calls ascii_only
     (ustr ''const x = try env.get('' @ [34] @ ustr ''a'' @ 10 # ustr ''b'' @ [34] @ ustr '')'')
   \<noteq> fix_env_get_calls ascii_only (ustr ''const x = try env.get('' @ [34] @ ustr ''a'')
       @ 10 # fix_env_get_calls ascii_only (ustr ''b'' @ [34] @ ustr '')'')"
  by code_simp

text \<open>
  Claim C9, amended. A captured key is copied into the output, so a key that contains
  \<open> = try env.get(\<close> can leave a match for a second run. When no key captured by a
  match of the first substitution (on the input) or of the second (on the output of
  the first) contains the text \<open> = try env.get(\<close>, the output holds no match of
  either pattern and applying \<open>fix_env_get_calls\<close> twice gives the same as applying it
  once.
\<close>

theorem fix_env_get_calls_idempotent:
  "list_all (\<lambda>k. \<not> sublist (ustr '' = try env.get('') k) (captured (pattern1 U) 2 s)
   \<and> list_all (\<lambda>k. \<not> sublist (ustr '' = try env.get('') k)
        (captured (pattern2 U) 1 (re_sub (pattern1 U) template1 s))
   \<longrightarrow> fix_env_get_calls U (fix_env_get_calls U s) = fix_env_get_calls U s
       \<and> \<not> matches_anywhere (pattern1 U) (fix_env_get_calls U s)
       \<and> \<not> matches_anywhere (pattern2 U) (fix_env_get_calls U s)"
proof (intro impI)
  assume h: "list_all (\<lambda>k. \<not> sublist (ustr '' = try env.get('') k) (captured (pattern1 U) 2 s)
   \<and> list_all (\<lambda>k. \<not> sublist (ustr '' = try env.get('') k)
        (captured (pattern2 U) 1 (re_sub (pattern1 U) template1 s))"
  have n: "\<not> matches_anywhere (pattern1 U) (fix_env_get_calls U s)"
      "\<not> matches_anywhere (pattern2 U) (fix_env_get_calls U s)"
    using fix_env_get_calls_output_unmatched h by blast+
  then have "fix_env_get_calls U (fix_env_get_calls U s) = fix_env_get_calls U s"
    by (simp add: fix_env_get_calls_def [of U "fix_env_get_calls U s"] re_sub_no_match)
  with n show "fix_env_get_calls U (fix_env_get_calls U s) = fix_env_get_calls U s
       \<and> \<not> matches_anywhere (pattern1 U) (fix_env_get_calls U s)
       \<and> \<not> matches_anywhere (pattern2 U) (fix_env_get_calls U s)"
    by simp
qed

theorem fix_env_get_calls_idempotent_witness:
  "list_all (\<lambda>k. \<not> sublist (ustr '' = try env.get('') k)
     (captured (pattern1 ascii_only) 2
       (ustr ''const a = try env.get('' @ [34] @ ustr ''K'' @ [34] @ ustr ''); _ = try env.get(j);''))
   \<and> list_all (\<lambda>k. \<not> sublist (ustr '' = try env.get('') k)
        (captured (pattern2 ascii_only) 1 (re_sub (pattern1 ascii_only) template1
          (ustr ''const a = try env.get('' @ [34] @ ustr ''K'' @ [34] @ ustr ''); _ = try env.get(j);'')))
   \<and> fix_env_get_calls ascii_only
        (ustr ''const a = try env.get('' @ [34] @ ustr ''K'' @ [34] @ ustr ''); _ = try env.get(j);'')
       = ustr ''const a = env.get('' @ [34] @ ustr ''K'' @ [34] @ ustr '').?; _ = env.get(j).?;''
   \<and> fix_env_get_calls ascii_only
        (ustr ''const a = env.get('' @ [34] @ ustr ''K'' @ [34] @ ustr '').?; _ = env.get(j).?;'')
       = ustr ''const a = env.get('' @ [34] @ ustr ''K'' @ [34] @ ustr '').?; _ = env.get(j).?;''"
proof -
  have h1: "list_all (\<lambda>k. \<not> sublist (ustr '' = try env.get('') k)
     (captured (pattern1 ascii_only) 2
       (ustr ''const a = try env.get('' @ [34] @ ustr ''K'' @ [34] @ ustr ''); _ = try env.get(j);''))"
    by code_simp
  have h2: "list_all (\<lambda>k. \<not> sublist (ustr '' = try env.get('') k)
        (captured (pattern2 ascii_only) 1 (re_sub (pattern1 ascii_only) template1
          (ustr ''const a = try env.get('' @ [34] @ ustr ''K'' @ [34] @ ustr ''); _ = try env.get(j);'')))"
    by code_simp
  have e: "fix_env_get_calls ascii_only
        (ustr ''const a = try env.get('' @ [34] @ ustr ''K'' @ [34] @ ustr ''); _ = try env.get(j);'')
       = ustr ''const a = env.get('' @ [34] @ ustr ''K'' @ [34] @ ustr '').?; _ = env.get(j).?;''"
    by code_simp
  have "fix_env_get_calls ascii_only (fix_env_get_calls ascii_only
        (ustr ''const a = try env.get('' @ [34] @ ustr ''K'' @ [34] @ ustr ''); _ = try env.get(j);''))
      = fix_env_get_calls ascii_only
        (ustr ''const a = try env.get('' @ [34] @ ustr ''K'' @ [34] @ ustr ''); _ = try env.get(j);'')"
    using fix_env_get_calls_idempotent [of ascii_only
        "ustr ''const a = try env.get('' @ [34] @ ustr ''K'' @ [34] @ ustr ''); _ = try env.get(j);''"]
      h1 h2
    by blast
  then have c: "fix_env_get_calls ascii_only
        (ustr ''const a = env.get('' @ [34] @ ustr ''K'' @ [34] @ ustr '').?; _ = env.get(j).?;'')
       = ustr ''const a = env.get('' @ [34] @ ustr ''K'' @ [34] @ ustr '').?; _ = env.get(j).?;''"
    unfolding e .
  show ?thesis using h1 h2 e c by (intro conjI)
qed

text \<open>
  The claim as stated fails for \<open>const a = try env.get("const b = try env.get(c)")\<close>: the
  first run rewrites the outer call and copies its key, the second run rewrites the
  bound form inside the key.
\<close>

theorem idempotence_claim_counterexample:
  "fix_env_get_calls ascii_only (fix_env_get_calls ascii_only
     (ustr ''const a = try env.get('' @ [34] @ ustr ''const b = try env.get(c)'' @ [34] @ ustr '')''))
   \<noteq> fix_env_get_calls ascii_only
     (ustr ''const a = try env.get('' @ [34] @ ustr ''const b = try env.get(c)'' @ [34] @ ustr '')'')"
  by code_simp

section \<open>Texts without a match\<close>

text \<open>
  Claim C6. A text in which no pattern of a tool matches is returned unchanged by the
  transformation of that tool; both transformations map the empty text to the empty
  text.
\<close>

theorem no_match_is_no_op:
  "(\<not> matches_anywhere const_env_pattern s \<longrightarrow> fix_const_to_var s = s)
   \<and> (\<not> matches_anywhere (pattern1 U) s \<and> \<not> matches_anywhere (pattern2 U) s
        \<longrightarrow> fix_env_get_calls U s = s)
   \<and> fix_const_to_var [] = []
   \<and> fix_env_get_calls U [] = []"
proof (intro conjI impI)
  show "fix_const_to_var s = s" if "\<not> matches_anywhere const_env_pattern s"
    using that by (simp add: fix_const_to_var_def re_sub_no_match)
  show "fix_env_get_calls U s = s"
    if "\<not> matches_anywhere (pattern1 U) s \<and> \<not> matches_anywhere (pattern2 U) s"
    using that by (simp add: fix_env_get_calls_def re_sub_no_match)
  show "fix_const_to_var [] = []"
    by (simp add: fix_const_to_var_def const_env_pattern_def re_sub_Nil)
  show "fix_env_get_calls U [] = []"
    by (simp add: fix_env_get_calls_def pattern1_def pattern2_def re_sub_Nil)
qed

theorem no_match_is_no_op_witness:
  "\<not> matches_anywhere const_env_pattern (ustr ''const config = try Config.load();'')
   \<and> fix_const_to_var (ustr ''const config = try Config.load();'')
       = ustr ''const config = try Config.load();''
   \<and> \<not> matches_anywhere (pattern1 ascii_only) (ustr ''const config = try Config.load();'')
   \<and> \<not> matches_anywhere (pattern2 ascii_only) (ustr ''const config = try Config.load();'')
   \<and> fix_env_get_calls ascii_only (ustr ''const config = try Config.load();'')
       = ustr ''const config = try Config.load();''"
proof -
  have h1: "\<not> matches_anywhere const_env_pattern (ustr ''const config = try Config.load();'')"
    by code_simp
  have h2: "\<not> matches_anywhere (pattern1 ascii_only) (ustr ''const config = try Config.load();'')"
    by code_simp
  have h3: "\<not> matches_anywhere (pattern2 ascii_only) (ustr ''const config = try Config.load();'')"
    by code_simp
  show ?thesis
    using h1 h2 h3
      no_match_is_no_op [of "ustr ''const config = try Config.load();''" ascii_only]
    by blast
qed

section \<open>The command line\<close>

text \<open>
  Claim C7. Called with an argument count other than one, either tool prints its usage
  message and exits with status 1; nothing else of the world changes: no file is
  opened, read or written.
\<close>

theorem wrong_argument_count:
  "length args \<noteq> 1 \<Longrightarrow>
   main_fix_const_var (prog # args) w
     = (w\<lparr>stdout := stdout w @ ustr ''Usage: python fix_const_var.py <file>'' @ [10]\<rparr>, Exit 1)
   \<and> main_fix_tests U (prog # args) w
     = (w\<lparr>stdout := stdout w @ ustr ''Usage: python fix_tests.py <file>'' @ [10]\<rparr>, Exit 1)"
  by (simp add: main_fix_const_var_def main_fix_tests_def print_def)

theorem wrong_argument_count_witness:
  "length ([] :: utext list) \<noteq> 1
   \<and> main_fix_const_var (ustr ''fix_const_var.py'' # [])
        \<lparr>files = Map.empty, writable = (\<lambda>p. False), opened = [], stdout = []\<rparr>
     = (\<lparr>files = Map.empty, writable = (\<lambda>p. False), opened = [],
         stdout = ustr ''Usage: python fix_const_var.py <file>'' @ [10]\<rparr>, Exit 1)
   \<and> main_fix_tests ascii_only (ustr ''fix_const_var.py'' # [])
        \<lparr>files = Map.empty, writable = (\<lambda>p. False), opened = [], stdout = []\<rparr>
     = (\<lparr>files = Map.empty, writable = (\<lambda>p. False), opened = [],
         stdout = ustr ''Usage: python fix_tests.py <file>'' @ [10]\<rparr>, Exit 1)"
  using wrong_argument_count [of "[]" "ustr ''fix_const_var.py''"
      "\<lparr>files = Map.empty, writable = (\<lambda>p. False), opened = [], stdout = []\<rparr>"
      ascii_only]
  by simp



section \<open>Newlines\<close>

text \<open>
  Claim C10. The output of \<open>fix_const_to_var\<close> and the output of \<open>fix_env_get_calls\<close>
  contain exactly as many newline characters (code point 10) as the input.
\<close>

theorem newlines_preserved:
  "count_list (fix_const_to_var s) 10 = count_list s 10
   \<and> count_list (fix_env_get_calls U s) 10 = count_list s 10"
proof
  show "count_list (fix_const_to_var s) 10 = count_list s 10"
    unfolding fix_const_to_var_def const_env_pattern_def var_env_template_def
    by (rule count_sub_lit) simp_all
  show "count_list (fix_env_get_calls U s) 10 = count_list s 10"
    by (simp add: fix_env_get_calls_def count_re_sub_pattern1 count_re_sub_pattern2)
qed

end
